theory Spec2Isabelle
  imports Complex_Main
begin

section \<open>Data model of the top-down shooter (main.cpp)\<close>

text \<open>
  Conventions of the embedding.
  \<^item> A \<open>float\<close> field holds a \<^typ>\<open>real\<close>. In \<open>IsColliding\<close> the arithmetic is that of
    IEEE 754 single precision: every operation rounds its exact result to the nearest
    value with 24 significant bits, ties to even, with gradual underflow, overflow to
    infinity and NaN; the two zeros are not told apart, which no comparison can see.
    Everywhere else the arithmetic on floats is exact.
  \<^item> A C++ \<open>int\<close> is modelled as an \<^typ>\<open>int\<close>. The subtraction in \<open>TakeDamage\<close>, whose
    amount is an arbitrary argument, is taken in 32-bit two's complement (\<open>int32\<close>), as
    the machine subtracts (for the language an overflow is undefined); the damage
    constants and the cursor, which stays below the number of rooms, are far from the
    limits.
  \<^item> Inheritance from \<open>Entity\<close> is record extension, so \<open>TakeDamage\<close> and \<open>IsColliding\<close>
    work on every derived struct.
  \<^item> Mutation is explicit state passing; an out-of-range \<open>rooms[currentRoom]\<close> (undefined
    behaviour in C++) is the value \<open>None\<close>.
  \<^item> The raylib calls \<open>GetFrameTime\<close>, \<open>IsKeyDown\<close>, \<open>IsKeyPressed\<close> and \<open>GetTime\<close> are read
    from a per-frame input snapshot; drawing is reduced to which screen is shown.
\<close>

datatype Direction = UP | RIGHT | DOWN | LEFT

datatype Color = RED | YELLOW | BLUE | PURPLE

definition PLAYER_SPEED :: real where "PLAYER_SPEED = 200"
definition ENEMY_SPEED :: real where "ENEMY_SPEED = 80"
definition PLAYER_HEALTH :: int where "PLAYER_HEALTH = 100"
definition ENEMY_HEALTH :: int where "ENEMY_HEALTH = 30"
definition BOSS_HEALTH :: int where "BOSS_HEALTH = 150"
definition PLAYER_SHOOT_COOLDOWN :: real where "PLAYER_SHOOT_COOLDOWN = 3 / 10"
definition ENEMY_SHOOT_COOLDOWN :: real where "ENEMY_SHOOT_COOLDOWN = 3 / 2"
definition PROJECTILE_SPEED :: real where "PROJECTILE_SPEED = 400"

record Entity =
  x :: real
  y :: real
  radius :: real
  health :: int
  maxHealth :: int
  active :: bool
  color :: Color
  facing :: Direction

record Projectile = Entity +
  speedX :: real
  speedY :: real
  isEnemyProjectile :: bool
  damage :: int

record Player = Entity +
  speedX :: real
  speedY :: real
  shootCooldown :: real

text \<open>
  \<open>isBoss\<close> is the dynamic type of the object behind the \<open>unique_ptr<Enemy>\<close>: it selects
  the override of \<open>Update\<close>. The \<open>rng\<close> pointer of every enemy points to the one generator
  of the game, which the model threads through the calls instead.
\<close>

record Enemy = Entity +
  speedX :: real
  speedY :: real
  shootCooldown :: real
  aggro :: bool
  moveTimer :: real
  isBoss :: bool

record Room =
  x :: real
  y :: real
  width :: real
  height :: real
  enemies :: "Enemy list"
  cleared :: bool
  hasBoss :: bool

text \<open>
  \<open>std::mt19937\<close> is modelled by the stream of its raw 32-bit outputs; a distribution
  consumes one output per call and maps it into its range.
\<close>

type_synonym mt19937 = "nat \<Rightarrow> nat"

record Game =
  isMainMenu :: bool
  isGameOver :: bool
  player :: Player
  rooms :: "Room list"
  currentRoom :: int
  projectiles :: "Projectile list"
  rng :: mt19937

text \<open>
  The frame's input: \<open>GetFrameTime()\<close>, \<open>IsKeyDown\<close> of W, S, A, D and SPACE,
  \<open>IsKeyPressed(KEY_ENTER)\<close>, and the successive results of \<open>GetTime()\<close> in this frame.
\<close>

record Input =
  frameTime :: real
  keyW :: bool
  keyS :: bool
  keyA :: bool
  keyD :: bool
  keySPACE :: bool
  keyENTER :: bool
  clock :: "nat \<Rightarrow> real"

section \<open>Entity\<close>

text \<open>The value of a 32-bit signed integer operation: the exact result, wrapped.\<close>

definition int32 :: "int \<Rightarrow> int" where
  "int32 i = (i + 2 ^ 31) mod 2 ^ 32 - 2 ^ 31"

definition TakeDamage :: "'a Entity_scheme \<Rightarrow> int \<Rightarrow> 'a Entity_scheme" where
  "TakeDamage this amount =
     (let e1 = this\<lparr>health := int32 (health this - amount)\<rparr>
      in if health e1 \<le> 0 then e1\<lparr>health := 0, active := False\<rparr> else e1)"

text \<open>
  Single precision. \<open>rne\<close> rounds a real to the nearest integer, a tie to the even one.
  \<open>ulp32 r\<close> is the distance between the single-precision values around \<open>r\<close>: the
  exponent of \<open>r\<close>, but at least \<open>-126\<close>, less the 23 fraction bits. \<open>round32\<close> rounds to
  the nearest multiple of it.
\<close>

definition rne :: "real \<Rightarrow> int" where
  "rne r =
     (let f = \<lfloor>r\<rfloor>
      in if r - of_int f < 1 / 2 then f
         else if r - of_int f > 1 / 2 then f + 1
         else if even f then f else f + 1)"

definition ulp32 :: "real \<Rightarrow> real" where
  "ulp32 r = 2 powr (of_int (max \<lfloor>log 2 \<bar>r\<bar>\<rfloor> (- 126)) - 23)"

definition round32 :: "real \<Rightarrow> real" where
  "round32 r = (if r = 0 then 0 else of_int (rne (r / ulp32 r)) * ulp32 r)"

text \<open>
  A single-precision value, and the conversion of an exact result: a result that rounds
  to \<open>2 ^ 128\<close> or beyond in magnitude overflows to an infinity.
\<close>

datatype float32 = Finite real | PosInf | NegInf | NaN

definition toFloat :: "real \<Rightarrow> float32" where
  "toFloat r =
     (let v = round32 r
      in if v \<ge> 2 ^ 128 then PosInf else if v \<le> - (2 ^ 128) then NegInf else Finite v)"

text \<open>Negation, \<open>+\<close>, \<open>-\<close>, \<open>*\<close>, \<open>sqrt\<close> and \<open><\<close> on single-precision values.\<close>

fun fneg :: "float32 \<Rightarrow> float32" where
  "fneg (Finite a) = Finite (- a)"
| "fneg PosInf = NegInf"
| "fneg NegInf = PosInf"
| "fneg NaN = NaN"

fun fadd :: "float32 \<Rightarrow> float32 \<Rightarrow> float32" where
  "fadd (Finite a) (Finite b) = toFloat (a + b)"
| "fadd NaN b = NaN"
| "fadd a NaN = NaN"
| "fadd PosInf NegInf = NaN"
| "fadd NegInf PosInf = NaN"
| "fadd PosInf b = PosInf"
| "fadd a PosInf = PosInf"
| "fadd NegInf b = NegInf"
| "fadd a NegInf = NegInf"

definition fsub :: "float32 \<Rightarrow> float32 \<Rightarrow> float32" where
  "fsub a b = fadd a (fneg b)"

fun fmul :: "float32 \<Rightarrow> float32 \<Rightarrow> float32" where
  "fmul (Finite a) (Finite b) = toFloat (a * b)"
| "fmul NaN b = NaN"
| "fmul a NaN = NaN"
| "fmul (Finite a) PosInf = (if a = 0 then NaN else if 0 < a then PosInf else NegInf)"
| "fmul (Finite a) NegInf = (if a = 0 then NaN else if 0 < a then NegInf else PosInf)"
| "fmul PosInf (Finite b) = (if b = 0 then NaN else if 0 < b then PosInf else NegInf)"
| "fmul NegInf (Finite b) = (if b = 0 then NaN else if 0 < b then NegInf else PosInf)"
| "fmul PosInf PosInf = PosInf"
| "fmul NegInf NegInf = PosInf"
| "fmul PosInf NegInf = NegInf"
| "fmul NegInf PosInf = NegInf"

fun fsqrt :: "float32 \<Rightarrow> float32" where
  "fsqrt (Finite a) = (if a < 0 then NaN else toFloat (sqrt a))"
| "fsqrt PosInf = PosInf"
| "fsqrt NegInf = NaN"
| "fsqrt NaN = NaN"

fun fless :: "float32 \<Rightarrow> float32 \<Rightarrow> bool" where
  "fless (Finite a) (Finite b) = (a < b)"
| "fless NaN b = False"
| "fless a NaN = False"
| "fless PosInf b = False"
| "fless a NegInf = False"
| "fless NegInf b = True"
| "fless a PosInf = True"

text \<open>
  \<open>IsColliding\<close>. The locals \<open>dx\<close>, \<open>dy\<close> and \<open>distance\<close> are \<open>float\<close>s, and so are the two
  products, their sum and the sum of the radii: each is rounded on its own (no fused
  multiply-add). The square root is the correctly rounded one, which is also what a
  square root taken in double precision and then stored in a \<open>float\<close> gives.
\<close>

definition IsColliding :: "'a Entity_scheme \<Rightarrow> 'b Entity_scheme \<Rightarrow> bool" where
  "IsColliding this other =
     (let dx = fsub (Finite (Entity.x this)) (Finite (Entity.x other));
          dy = fsub (Finite (Entity.y this)) (Finite (Entity.y other));
          distance = fsqrt (fadd (fmul dx dx) (fmul dy dy))
      in fless distance (fadd (Finite (radius this)) (Finite (radius other))))"

section \<open>Projectile\<close>

text \<open>The constructor \<open>Projectile() : Entity(0, 0, 5, 1, YELLOW)\<close>, ending with \<open>active = false\<close>.\<close>

definition Projectile_new :: Projectile where
  "Projectile_new =
     \<lparr>Entity.x = 0, Entity.y = 0, radius = 5, health = 1, maxHealth = 1, active = False,
      color = YELLOW, facing = RIGHT,
      Projectile.speedX = 0, Projectile.speedY = 0, isEnemyProjectile = False, damage = 10\<rparr>"

definition Projectile_Fire :: "Projectile \<Rightarrow> real \<Rightarrow> real \<Rightarrow> Direction \<Rightarrow> bool \<Rightarrow> Projectile" where
  "Projectile_Fire this startX startY dir fromEnemy =
     (let p1 = this\<lparr>Entity.x := startX, Entity.y := startY, active := True,
                    isEnemyProjectile := fromEnemy\<rparr>;
          p2 = (if fromEnemy then p1\<lparr>color := RED, damage := 5\<rparr>
                else p1\<lparr>color := YELLOW, damage := 10\<rparr>);
          p3 = p2\<lparr>Projectile.speedX := 0, Projectile.speedY := 0\<rparr>
      in case dir of
           UP \<Rightarrow> p3\<lparr>Projectile.speedY := - PROJECTILE_SPEED\<rparr>
         | RIGHT \<Rightarrow> p3\<lparr>Projectile.speedX := PROJECTILE_SPEED\<rparr>
         | DOWN \<Rightarrow> p3\<lparr>Projectile.speedY := PROJECTILE_SPEED\<rparr>
         | LEFT \<Rightarrow> p3\<lparr>Projectile.speedX := - PROJECTILE_SPEED\<rparr>)"

definition Projectile_Update :: "Projectile \<Rightarrow> real \<Rightarrow> Projectile" where
  "Projectile_Update this deltaTime =
     (if active this
      then this\<lparr>Entity.x := Entity.x this + Projectile.speedX this * deltaTime,
                Entity.y := Entity.y this + Projectile.speedY this * deltaTime\<rparr>
      else this)"

text \<open>
  \<open>Game::FireProjectile\<close> on the pool: the loop over the slots stops (\<open>break\<close>) at the
  first inactive one, which is fired from the spawn position; a pool with no inactive
  slot is left as it is.
\<close>

definition spawnX :: "real \<Rightarrow> Direction \<Rightarrow> real" where
  "spawnX sourceX dir =
     (case dir of UP \<Rightarrow> sourceX | RIGHT \<Rightarrow> sourceX + 20 | DOWN \<Rightarrow> sourceX | LEFT \<Rightarrow> sourceX - 20)"

definition spawnY :: "real \<Rightarrow> Direction \<Rightarrow> real" where
  "spawnY sourceY dir =
     (case dir of UP \<Rightarrow> sourceY - 20 | RIGHT \<Rightarrow> sourceY | DOWN \<Rightarrow> sourceY + 20 | LEFT \<Rightarrow> sourceY)"

fun FirePool :: "Projectile list \<Rightarrow> real \<Rightarrow> real \<Rightarrow> Direction \<Rightarrow> bool \<Rightarrow> Projectile list" where
  "FirePool [] sourceX sourceY dir isEnemy = []"
| "FirePool (p # ps) sourceX sourceY dir isEnemy =
     (if \<not> active p
      then Projectile_Fire p (spawnX sourceX dir) (spawnY sourceY dir) dir isEnemy # ps
      else p # FirePool ps sourceX sourceY dir isEnemy)"

definition FireProjectile :: "real \<Rightarrow> real \<Rightarrow> Direction \<Rightarrow> bool \<Rightarrow> Game \<Rightarrow> Game" where
  "FireProjectile sourceX sourceY dir isEnemy g =
     g\<lparr>projectiles := FirePool (projectiles g) sourceX sourceY dir isEnemy\<rparr>"

section \<open>Player\<close>

text \<open>The constructor \<open>Player(startX, startY) : Entity(startX, startY, 15, PLAYER_HEALTH, BLUE)\<close>.\<close>

definition Player_new :: "real \<Rightarrow> real \<Rightarrow> Player" where
  "Player_new startX startY =
     \<lparr>Entity.x = startX, Entity.y = startY, radius = 15, health = PLAYER_HEALTH,
      maxHealth = PLAYER_HEALTH, active = True, color = BLUE, facing = RIGHT,
      Player.speedX = 0, Player.speedY = 0, Player.shootCooldown = 0\<rparr>"

definition Player_Update :: "Input \<Rightarrow> Player \<Rightarrow> Player" where
  "Player_Update inp this =
     (let deltaTime = frameTime inp;
          p0 = this\<lparr>Player.speedX := 0, Player.speedY := 0\<rparr>;
          p1 = (if keyW inp then p0\<lparr>Player.speedY := - PLAYER_SPEED, facing := UP\<rparr> else p0);
          p2 = (if keyS inp then p1\<lparr>Player.speedY := PLAYER_SPEED, facing := DOWN\<rparr> else p1);
          p3 = (if keyA inp then p2\<lparr>Player.speedX := - PLAYER_SPEED, facing := LEFT\<rparr> else p2);
          p4 = (if keyD inp then p3\<lparr>Player.speedX := PLAYER_SPEED, facing := RIGHT\<rparr> else p3);
          p5 = p4\<lparr>Entity.x := Entity.x p4 + Player.speedX p4 * deltaTime,
                  Entity.y := Entity.y p4 + Player.speedY p4 * deltaTime\<rparr>
      in if Player.shootCooldown p5 > 0
         then p5\<lparr>Player.shootCooldown := Player.shootCooldown p5 - deltaTime\<rparr>
         else p5)"

definition Player_CanShoot :: "Player \<Rightarrow> bool" where
  "Player_CanShoot this = (Player.shootCooldown this \<le> 0)"

definition Player_ResetShootCooldown :: "Player \<Rightarrow> Player" where
  "Player_ResetShootCooldown this = this\<lparr>Player.shootCooldown := PLAYER_SHOOT_COOLDOWN\<rparr>"

section \<open>Enemy and Boss\<close>

text \<open>
  \<open>std::uniform_real_distribution<float>(lo, hi)\<close> and
  \<open>std::uniform_int_distribution<int>(lo, hi)\<close>, each applied once to the generator.
\<close>

definition uniform_real :: "real \<Rightarrow> real \<Rightarrow> mt19937 \<Rightarrow> real \<times> mt19937" where
  "uniform_real lo hi gen =
     (lo + (hi - lo) * (real (gen 0 mod 2 ^ 32) / 2 ^ 32), \<lambda>n. gen (Suc n))"

definition uniform_int :: "int \<Rightarrow> int \<Rightarrow> mt19937 \<Rightarrow> int \<times> mt19937" where
  "uniform_int lo hi gen = (lo + int (gen 0) mod (hi - lo + 1), \<lambda>n. gen (Suc n))"

definition Enemy_ChangeDirection :: "Enemy \<Rightarrow> mt19937 \<Rightarrow> Enemy \<times> mt19937" where
  "Enemy_ChangeDirection this gen =
     (case uniform_real 0 (628318 / 100000) gen of
        (angle, gen') \<Rightarrow>
          (let e1 = this\<lparr>Enemy.speedX := cos angle * ENEMY_SPEED,
                          Enemy.speedY := sin angle * ENEMY_SPEED\<rparr>
           in if \<bar>Enemy.speedX e1\<bar> > \<bar>Enemy.speedY e1\<bar>
              then e1\<lparr>facing := (if Enemy.speedX e1 > 0 then RIGHT else LEFT)\<rparr>
              else e1\<lparr>facing := (if Enemy.speedY e1 > 0 then DOWN else UP)\<rparr>,
           gen'))"

text \<open>
  The constructor \<open>Enemy(startX, startY, randomGen) : Entity(startX, startY, 12, ENEMY_HEALTH, RED)\<close>,
  which ends with \<open>ChangeDirection()\<close>, and the constructor of \<open>Boss\<close>, which runs it and
  then overwrites radius, health and colour.
\<close>

definition Enemy_new :: "real \<Rightarrow> real \<Rightarrow> mt19937 \<Rightarrow> Enemy \<times> mt19937" where
  "Enemy_new startX startY gen =
     Enemy_ChangeDirection
       \<lparr>Entity.x = startX, Entity.y = startY, radius = 12, health = ENEMY_HEALTH,
        maxHealth = ENEMY_HEALTH, active = True, color = RED, facing = RIGHT,
        Enemy.speedX = 0, Enemy.speedY = 0, Enemy.shootCooldown = 0, aggro = False,
        moveTimer = 0, isBoss = False\<rparr> gen"

definition Boss_new :: "real \<Rightarrow> real \<Rightarrow> mt19937 \<Rightarrow> Enemy \<times> mt19937" where
  "Boss_new startX startY gen =
     (case Enemy_new startX startY gen of
        (e, gen') \<Rightarrow>
          (e\<lparr>radius := 25, health := BOSS_HEALTH, maxHealth := BOSS_HEALTH, color := PURPLE,
             isBoss := True\<rparr>, gen'))"

text \<open>\<open>Enemy::Update\<close>, the base version.\<close>

definition Enemy_Update_base :: "real \<Rightarrow> Player \<Rightarrow> Enemy \<Rightarrow> mt19937 \<Rightarrow> Enemy \<times> mt19937" where
  "Enemy_Update_base deltaTime pl this gen =
     (let dx = Entity.x pl - Entity.x this;
          dy = Entity.y pl - Entity.y this;
          distToPlayer = sqrt (dx * dx + dy * dy);
          e1 = this\<lparr>aggro := (distToPlayer \<le> 150)\<rparr>
      in case (if \<not> aggro e1
               then (let e2 = e1\<lparr>moveTimer := moveTimer e1 + deltaTime\<rparr>
                     in if moveTimer e2 \<ge> 2
                        then (case Enemy_ChangeDirection e2 gen of
                                (e3, gen') \<Rightarrow> (e3\<lparr>moveTimer := 0\<rparr>, gen'))
                        else (e2, gen))
               else (if \<bar>dx\<bar> > \<bar>dy\<bar>
                     then e1\<lparr>facing := (if dx > 0 then RIGHT else LEFT)\<rparr>
                     else e1\<lparr>facing := (if dy > 0 then DOWN else UP)\<rparr>, gen)) of
           (e4, gen4) \<Rightarrow>
             (let e5 = e4\<lparr>Entity.x := Entity.x e4 + Enemy.speedX e4 * deltaTime,
                          Entity.y := Entity.y e4 + Enemy.speedY e4 * deltaTime\<rparr>
              in (if Enemy.shootCooldown e5 > 0
                  then e5\<lparr>Enemy.shootCooldown := Enemy.shootCooldown e5 - deltaTime\<rparr>
                  else e5, gen4)))"

text \<open>
  The virtual call \<open>enemy->Update(deltaTime, player)\<close>: a boss runs the base update and
  then blends its velocity with two readings of \<open>GetTime()\<close>. The state threaded through
  is the pair of the remaining clock readings and the generator.
\<close>

type_synonym env = "(nat \<Rightarrow> real) \<times> mt19937"

definition Enemy_Update :: "real \<Rightarrow> Player \<Rightarrow> Enemy \<Rightarrow> env \<Rightarrow> Enemy \<times> env" where
  "Enemy_Update deltaTime pl this ev =
     (case ev of (clk, gen) \<Rightarrow>
        (case Enemy_Update_base deltaTime pl this gen of
           (e, gen') \<Rightarrow>
             if isBoss this
             then (let e1 = e\<lparr>Enemy.speedX :=
                                cos (clk 0 * (1 / 2)) * ENEMY_SPEED * (1 / 2)
                                  + Enemy.speedX e * (1 / 2)\<rparr>;
                       e2 = e1\<lparr>Enemy.speedY :=
                                 sin (clk 1 * (3 / 10)) * ENEMY_SPEED * (1 / 2)
                                   + Enemy.speedY e1 * (1 / 2)\<rparr>
                   in (e2, (\<lambda>n. clk (n + 2), gen')))
             else (e, (clk, gen'))))"

definition Enemy_CanShoot :: "Enemy \<Rightarrow> bool" where
  "Enemy_CanShoot this = (Enemy.shootCooldown this \<le> 0 \<and> aggro this)"

definition Enemy_ResetShootCooldown :: "Enemy \<Rightarrow> Enemy" where
  "Enemy_ResetShootCooldown this = this\<lparr>Enemy.shootCooldown := ENEMY_SHOOT_COOLDOWN\<rparr>"

section \<open>Room\<close>

definition Room_new :: "real \<Rightarrow> real \<Rightarrow> real \<Rightarrow> real \<Rightarrow> bool \<Rightarrow> Room" where
  "Room_new posX posY w h boss =
     \<lparr>Room.x = posX, Room.y = posY, width = w, height = h, enemies = [], cleared = False,
      hasBoss = boss\<rparr>"

definition AddEnemy :: "real \<Rightarrow> real \<Rightarrow> Room \<Rightarrow> mt19937 \<Rightarrow> Room \<times> mt19937" where
  "AddEnemy enemyX enemyY this gen =
     (case Enemy_new enemyX enemyY gen of
        (e, gen') \<Rightarrow> (this\<lparr>enemies := enemies this @ [e]\<rparr>, gen'))"

definition AddBoss :: "real \<Rightarrow> real \<Rightarrow> Room \<Rightarrow> mt19937 \<Rightarrow> Room \<times> mt19937" where
  "AddBoss bossX bossY this gen =
     (case Boss_new bossX bossY gen of
        (e, gen') \<Rightarrow> (this\<lparr>enemies := enemies this @ [e]\<rparr>, gen'))"

text \<open>
  The first loop of \<open>Room::Update\<close>: every active enemy is updated and then clamped into
  the room. The pointers in the vector come from \<open>make_unique\<close> and are never null.
\<close>

fun updateEnemies :: "Room \<Rightarrow> real \<Rightarrow> Player \<Rightarrow> Enemy list \<Rightarrow> env \<Rightarrow> Enemy list \<times> env" where
  "updateEnemies room deltaTime pl [] ev = ([], ev)"
| "updateEnemies room deltaTime pl (e # es) ev =
     (if active e
      then (case Enemy_Update deltaTime pl e ev of
              (e1, ev1) \<Rightarrow>
                (let e2 = e1\<lparr>Entity.x := max (Room.x room + radius e1)
                                           (min (Entity.x e1) (Room.x room + width room - radius e1))\<rparr>;
                     e3 = e2\<lparr>Entity.y := max (Room.y room + radius e2)
                                           (min (Entity.y e2) (Room.y room + height room - radius e2))\<rparr>
                 in case updateEnemies room deltaTime pl es ev1 of
                      (es', ev') \<Rightarrow> (e3 # es', ev')))
      else (case updateEnemies room deltaTime pl es ev of
              (es', ev') \<Rightarrow> (e # es', ev')))"

text \<open>
  The second loop: \<open>cleared = true\<close>, then the first active enemy sets it to false and
  leaves the loop.
\<close>

fun checkCleared :: "Enemy list \<Rightarrow> bool" where
  "checkCleared [] = True"
| "checkCleared (e # es) = (if active e then False else checkCleared es)"

definition Room_Update :: "real \<Rightarrow> Player \<Rightarrow> Room \<Rightarrow> env \<Rightarrow> Room \<times> env" where
  "Room_Update deltaTime pl this ev =
     (case updateEnemies this deltaTime pl (enemies this) ev of
        (es', ev') \<Rightarrow> (this\<lparr>enemies := es', cleared := checkCleared es'\<rparr>, ev'))"

definition ContainsPoint :: "Room \<Rightarrow> real \<Rightarrow> real \<Rightarrow> bool" where
  "ContainsPoint this pointX pointY =
     (pointX \<ge> Room.x this \<and> pointX \<le> Room.x this + width this
      \<and> pointY \<ge> Room.y this \<and> pointY \<le> Room.y this + height this)"

section \<open>Game\<close>

text \<open>
  In \<open>currentRoom < rooms.size() - 1\<close> and \<open>currentRoom == rooms.size() - 1\<close> the \<open>int\<close>
  cursor is converted to the unsigned 64-bit \<open>size_t\<close> and the subtraction wraps.
\<close>

definition size_t :: "int \<Rightarrow> int" where
  "size_t i = i mod 2 ^ 64"

definition roomIndexValid :: "Game \<Rightarrow> bool" where
  "roomIndexValid g = (0 \<le> currentRoom g \<and> currentRoom g < int (length (rooms g)))"

text \<open>\<open>rooms[currentRoom]\<close>, read and written through the reference \<open>Room& room\<close>.\<close>

definition theRoom :: "Game \<Rightarrow> Room" where
  "theRoom g = rooms g ! nat (currentRoom g)"

definition setRoom :: "Room \<Rightarrow> Game \<Rightarrow> Game" where
  "setRoom r g = g\<lparr>rooms := (rooms g)[nat (currentRoom g) := r]\<rparr>"

text \<open>The inner loop of \<open>UpdateProjectiles\<close>: the first active enemy hit takes the damage.\<close>

fun hitEnemies :: "Projectile \<Rightarrow> Enemy list \<Rightarrow> bool \<times> Enemy list" where
  "hitEnemies proj [] = (False, [])"
| "hitEnemies proj (e # es) =
     (if active e \<and> IsColliding proj e
      then (True, TakeDamage e (damage proj) # es)
      else (case hitEnemies proj es of (hit, es') \<Rightarrow> (hit, e # es')))"

text \<open>
  The outer loop of \<open>UpdateProjectiles\<close> over the pool; the room's enemies and the
  player change along the way.
\<close>

fun projectilesLoop ::
  "real \<Rightarrow> Projectile list \<Rightarrow> Room \<Rightarrow> Player \<Rightarrow> Projectile list \<times> Room \<times> Player" where
  "projectilesLoop deltaTime [] room pl = ([], room, pl)"
| "projectilesLoop deltaTime (p # ps) room pl =
     (if active p
      then (let p1 = Projectile_Update p deltaTime
            in if \<not> ContainsPoint room (Entity.x p1) (Entity.y p1)
               then (case projectilesLoop deltaTime ps room pl of
                       (ps', room', pl') \<Rightarrow> (p1\<lparr>active := False\<rparr> # ps', room', pl'))
               else if \<not> isEnemyProjectile p1
               then (case hitEnemies p1 (enemies room) of
                       (hit, es') \<Rightarrow>
                         (case projectilesLoop deltaTime ps (room\<lparr>enemies := es'\<rparr>) pl of
                            (ps', room', pl') \<Rightarrow>
                              ((if hit then p1\<lparr>active := False\<rparr> else p1) # ps', room', pl')))
               else if IsColliding p1 pl
               then (case projectilesLoop deltaTime ps room (TakeDamage pl (damage p1)) of
                       (ps', room', pl') \<Rightarrow> (p1\<lparr>active := False\<rparr> # ps', room', pl'))
               else (case projectilesLoop deltaTime ps room pl of
                       (ps', room', pl') \<Rightarrow> (p1 # ps', room', pl')))
      else (case projectilesLoop deltaTime ps room pl of
              (ps', room', pl') \<Rightarrow> (p # ps', room', pl')))"

definition UpdateProjectiles :: "real \<Rightarrow> Game \<Rightarrow> Game" where
  "UpdateProjectiles deltaTime g =
     (case projectilesLoop deltaTime (projectiles g) (theRoom g) (player g) of
        (ps', room', pl') \<Rightarrow> setRoom room' (g\<lparr>projectiles := ps', player := pl'\<rparr>))"

text \<open>The blocks of \<open>UpdateGame\<close>, in the order of the source.\<close>

definition KeepPlayerInside :: "Game \<Rightarrow> Game" where
  "KeepPlayerInside g =
     (let room = theRoom g;
          p1 = (player g)\<lparr>Entity.x := max (Room.x room + radius (player g))
                                        (min (Entity.x (player g))
                                             (Room.x room + width room - radius (player g)))\<rparr>;
          p2 = p1\<lparr>Entity.y := max (Room.y room + radius p1)
                                (min (Entity.y p1) (Room.y room + height room - radius p1))\<rparr>
      in g\<lparr>player := p2\<rparr>)"

definition PlayerShooting :: "Input \<Rightarrow> Game \<Rightarrow> Game" where
  "PlayerShooting inp g =
     (if keySPACE inp \<and> Player_CanShoot (player g)
      then (let g1 = FireProjectile (Entity.x (player g)) (Entity.y (player g))
                       (facing (player g)) False g
            in g1\<lparr>player := Player_ResetShootCooldown (player g1)\<rparr>)
      else g)"

fun enemiesShoot :: "Enemy list \<Rightarrow> Game \<Rightarrow> Enemy list \<times> Game" where
  "enemiesShoot [] g = ([], g)"
| "enemiesShoot (e # es) g =
     (if active e \<and> Enemy_CanShoot e
      then (case enemiesShoot es (FireProjectile (Entity.x e) (Entity.y e) (facing e) True g) of
              (es', g') \<Rightarrow> (Enemy_ResetShootCooldown e # es', g'))
      else (case enemiesShoot es g of (es', g') \<Rightarrow> (e # es', g')))"

definition EnemyShooting :: "Game \<Rightarrow> Game" where
  "EnemyShooting g =
     (case enemiesShoot (enemies (theRoom g)) g of
        (es', g') \<Rightarrow> setRoom ((theRoom g')\<lparr>enemies := es'\<rparr>) g')"

definition UpdateCurrentRoom :: "Input \<Rightarrow> Game \<Rightarrow> Game" where
  "UpdateCurrentRoom inp g =
     (case Room_Update (frameTime inp) (player g) (theRoom g) (clock inp, rng g) of
        (room', (clk', gen')) \<Rightarrow> setRoom room' (g\<lparr>rng := gen'\<rparr>))"

text \<open>
  The room transition. \<open>room\<close> is still the room the tick started in; after
  \<open>currentRoom++\<close> the player is put at the left of \<open>rooms[currentRoom]\<close>.
\<close>

definition RoomTransition :: "Game \<Rightarrow> Game" where
  "RoomTransition g =
     (let room = theRoom g
      in if cleared room \<and> Entity.x (player g) > Room.x room + width room - 50
         then (if size_t (currentRoom g) < size_t (int (length (rooms g)) - 1)
               then (let g1 = g\<lparr>currentRoom := currentRoom g + 1\<rparr>
                     in g1\<lparr>player := (player g1)\<lparr>Entity.x := Room.x (theRoom g1) + 50\<rparr>\<rparr>)
               else g)
         else if \<not> cleared room \<and> Entity.x (player g) > Room.x room + width room - 50
         then g\<lparr>player := (player g)\<lparr>Entity.x := Room.x room + width room - 50\<rparr>\<rparr>
         else g)"

definition CheckWinLose :: "Game \<Rightarrow> Game" where
  "CheckWinLose g =
     (let g1 = (if size_t (currentRoom g) = size_t (int (length (rooms g)) - 1)
                   \<and> cleared (theRoom g)
                then g\<lparr>isGameOver := True\<rparr> else g)
      in if health (player g1) \<le> 0 then g1\<lparr>isGameOver := True\<rparr> else g1)"

text \<open>The game state at the room-transition check of a tick.\<close>

definition BeforeTransition :: "Input \<Rightarrow> Game \<Rightarrow> Game" where
  "BeforeTransition inp g =
     UpdateCurrentRoom inp
       (UpdateProjectiles (frameTime inp)
          (EnemyShooting
             (PlayerShooting inp
                (KeepPlayerInside (g\<lparr>player := Player_Update inp (player g)\<rparr>)))))"

definition UpdateGame :: "Input \<Rightarrow> Game \<Rightarrow> Game option" where
  "UpdateGame inp g =
     (if roomIndexValid g
      then Some (CheckWinLose (RoomTransition (BeforeTransition inp g)))
      else None)"

text \<open>
  \<open>ResetGame\<close>. The loop \<open>for j\<close> adds \<open>enemyCount\<close> enemies to room \<open>i\<close>; the two
  coordinates are drawn in the order in which the arguments are written.
\<close>

fun addEnemies :: "nat \<Rightarrow> nat \<Rightarrow> Room \<Rightarrow> mt19937 \<Rightarrow> Room \<times> mt19937" where
  "addEnemies 0 i room gen = (room, gen)"
| "addEnemies (Suc n) i room gen =
     (case uniform_real (real i * 800 + 100) (real i * 800 + 700) gen of
        (ex, gen1) \<Rightarrow>
          (case uniform_real 100 500 gen1 of
             (ey, gen2) \<Rightarrow>
               (case AddEnemy ex ey room gen2 of
                  (room', gen3) \<Rightarrow> addEnemies n i room' gen3)))"

definition createRoom :: "nat \<Rightarrow> mt19937 \<Rightarrow> Room \<times> mt19937" where
  "createRoom i gen =
     (let isBossRoom = (i = 4);
          room = Room_new (real i * 800) 0 800 600 isBossRoom
      in if isBossRoom
         then AddBoss (real i * 800 + 400) 300 room gen
         else (case uniform_int 3 6 gen of
                 (enemyCount, gen1) \<Rightarrow> addEnemies (nat enemyCount) i room gen1))"

fun createRooms :: "nat list \<Rightarrow> Room list \<Rightarrow> mt19937 \<Rightarrow> Room list \<times> mt19937" where
  "createRooms [] rs gen = (rs, gen)"
| "createRooms (i # is) rs gen =
     (case createRoom i gen of (room, gen') \<Rightarrow> createRooms is (rs @ [room]) gen')"

definition ResetGame :: "Game \<Rightarrow> Game" where
  "ResetGame g =
     (let g1 = g\<lparr>player := Player_new 400 300, rooms := [], currentRoom := 0\<rparr>
      in case createRooms [0, 1, 2, 3, 4] (rooms g1) (rng g1) of
           (rs, gen') \<Rightarrow>
             g1\<lparr>rooms := rs, rng := gen',
                projectiles := map (\<lambda>p. p\<lparr>active := False\<rparr>) (projectiles g1),
                isGameOver := False\<rparr>)"

text \<open>
  The constructor \<open>Game()\<close>; \<open>seed\<close> is the generator obtained from \<open>std::random_device\<close>.
\<close>

definition Game_new :: "mt19937 \<Rightarrow> Game" where
  "Game_new seed =
     ResetGame
       \<lparr>isMainMenu = True, isGameOver = False, player = Player_new 400 300, rooms = [],
        currentRoom = 0, projectiles = replicate 100 Projectile_new, rng = seed\<rparr>"

definition Update :: "Input \<Rightarrow> Game \<Rightarrow> Game option" where
  "Update inp g =
     (if isMainMenu g
      then (if keyENTER inp then Some (g\<lparr>isMainMenu := False\<rparr>) else Some g)
      else if isGameOver g
      then (if keyENTER inp then Some (ResetGame (g\<lparr>isMainMenu := True\<rparr>)) else Some g)
      else UpdateGame inp g)"

text \<open>
  \<open>Draw\<close> chooses the screen from the two mode flags; \<open>DrawGameOver\<close> chooses the headline
  from the player's health.
\<close>

datatype Screen = MainMenuScreen | GameOverScreen string | GameScreen

definition DrawGameOver :: "Game \<Rightarrow> string" where
  "DrawGameOver g =
     (if health (player g) \<le> 0 then ''GAME OVER - YOU DIED!'' else ''YOU WIN! BOSS DEFEATED!'')"

definition Draw :: "Game \<Rightarrow> Screen" where
  "Draw g =
     (if isMainMenu g then MainMenuScreen
      else if isGameOver g then GameOverScreen (DrawGameOver g)
      else GameScreen)"

text \<open>The game states the program can be in: the constructed game and every frame after it.\<close>

inductive reachable :: "Game \<Rightarrow> bool" where
  start: "reachable (Game_new seed)"
| frame: "reachable g \<Longrightarrow> Update inp g = Some g' \<Longrightarrow> reachable g'"

definition playing :: "Game \<Rightarrow> bool" where
  "playing g = (\<not> isMainMenu g \<and> \<not> isGameOver g)"

section \<open>Notions used to state the properties\<close>


text \<open>
  \<open>damaged A e e'\<close>: the health and the active flag of \<open>e'\<close> are those of \<open>e\<close> after some
  sequence of \<open>TakeDamage\<close> calls (possibly none) whose amounts are all in \<open>A\<close>.
\<close>

definition damaged :: "int set \<Rightarrow> 'a Entity_scheme \<Rightarrow> 'a Entity_scheme \<Rightarrow> bool" where
  "damaged A e e' =
     (\<exists>ds. set ds \<subseteq> A
         \<and> health e' = health (foldl TakeDamage e ds)
         \<and> active e' = active (foldl TakeDamage e ds))"

text \<open>Every slot of the pool carries a damage amount of \<open>A\<close>.\<close>

definition poolWithin :: "int set \<Rightarrow> Game \<Rightarrow> bool" where
  "poolWithin A g = (\<forall>p\<in>set (projectiles g). damage p \<in> A)"

text \<open>A room keeps its rectangle, and its roster changes by damage only.\<close>

definition roomStep :: "int set \<Rightarrow> Room \<Rightarrow> Room \<Rightarrow> bool" where
  "roomStep A r r' =
     (Room.x r' = Room.x r \<and> Room.y r' = Room.y r \<and> width r' = width r
      \<and> height r' = height r \<and> list_all2 (damaged A) (enemies r) (enemies r'))"

text \<open>
  What every block of \<open>UpdateGame\<close> before the room transition respects: the mode and
  the cursor stay, the pool keeps its size, only the current room changes, and player
  and enemies change health and activity by damage only, with amounts of \<open>A\<close>.
\<close>

definition blockStep :: "int set \<Rightarrow> Game \<Rightarrow> Game \<Rightarrow> bool" where
  "blockStep A g g' =
     (isMainMenu g' = isMainMenu g \<and> isGameOver g' = isGameOver g
      \<and> currentRoom g' = currentRoom g
      \<and> length (projectiles g') = length (projectiles g)
      \<and> damaged A (player g) (player g')
      \<and> length (rooms g') = length (rooms g)
      \<and> (\<forall>i<length (rooms g).
            roomStep A (rooms g ! i) (rooms g' ! i)
            \<and> (i \<noteq> nat (currentRoom g) \<longrightarrow> rooms g' ! i = rooms g ! i)))"

text \<open>
  \<open>hurt e e'\<close>: \<open>e'\<close> is \<open>e\<close> after hits by the game's projectiles, whose damage is 5 or
  10: the health has not grown and is not negative, the entity has not been activated,
  and if it has been deactivated its health is 0.
\<close>

definition hurt :: "'a Entity_scheme \<Rightarrow> 'a Entity_scheme \<Rightarrow> bool" where
  "hurt e e' =
     (damaged {5, 10} e e' \<and> 0 \<le> health e' \<and> health e' \<le> health e
      \<and> (active e' \<longrightarrow> active e)
      \<and> (active e \<and> \<not> active e' \<longrightarrow> health e' = 0))"

text \<open>The health of the player and of every enemy is a non-negative 32-bit value.\<close>

definition healthSound :: "Game \<Rightarrow> bool" where
  "healthSound g =
     (0 \<le> health (player g) \<and> health (player g) < 2 ^ 31
      \<and> (\<forall>r\<in>set (rooms g). \<forall>e\<in>set (enemies r). 0 \<le> health e \<and> health e < 2 ^ 31))"

text \<open>A room flagged as cleared has no active enemy.\<close>

definition clearedSound :: "Room \<Rightarrow> bool" where
  "clearedSound r = (cleared r \<longrightarrow> (\<forall>e\<in>set (enemies r). \<not> active e))"

text \<open>
  The level built by \<open>ResetGame\<close>: five rooms of width 800 side by side, the cursor
  inside, a pool of 100 slots, each with damage 5 or 10.
\<close>

definition levelInvariant :: "Game \<Rightarrow> bool" where
  "levelInvariant g =
     (length (rooms g) = 5 \<and> 0 \<le> currentRoom g \<and> currentRoom g < 5
      \<and> length (projectiles g) = 100 \<and> poolWithin {5, 10} g
      \<and> (\<forall>i<5. Room.x (rooms g ! i) = real i * 800 \<and> width (rooms g ! i) = 800
                \<and> clearedSound (rooms g ! i)))"

text \<open>
  A Playing session: \<open>session g g'\<close> holds when \<open>g'\<close> comes from \<open>g\<close> by Playing ticks
  only, so with no reset in between.
\<close>

inductive session :: "Game \<Rightarrow> Game \<Rightarrow> bool" where
  session_start: "session g g"
| session_tick: "session g g' \<Longrightarrow> playing g' \<Longrightarrow> Update inp g' = Some g'' \<Longrightarrow> session g g''"

section \<open>Concrete states and inputs\<close>

text \<open>
  A frame with no key pressed and no time elapsed; a game in its last room where the
  boss and the player are each about to be hit; the same game after the projectiles
  have been resolved, and at the end of that tick; a game whose first room is cleared
  with the player at its exit.
\<close>

definition quietInput :: Input where
  "quietInput =
     \<lparr>frameTime = 0, keyW = False, keyS = False, keyA = False, keyD = False,
      keySPACE = False, keyENTER = False, clock = (\<lambda>n. 0)\<rparr>"

definition lastBoss :: Enemy where
  "lastBoss =
     \<lparr>Entity.x = 100, Entity.y = 300, radius = 25, health = 10,
      maxHealth = 150, active = True, color = PURPLE, facing = RIGHT,
      Enemy.speedX = 0, Enemy.speedY = 0, Enemy.shootCooldown = 1,
      aggro = False, moveTimer = 0, isBoss = True\<rparr>"

definition lastStand :: Game where
  "lastStand =
     \<lparr>isMainMenu = False, isGameOver = False,
      player = (Player_new 400 300)\<lparr>health := 5\<rparr>,
      rooms = [(Room_new 0 0 800 600 True)\<lparr>enemies := [lastBoss]\<rparr>],
      currentRoom = 0,
      projectiles = [Projectile_Fire Projectile_new 100 300 LEFT False,
                     Projectile_Fire Projectile_new 400 300 RIGHT True],
      rng = (\<lambda>n. 0)\<rparr>"

definition lastStandAfter :: Game where
  "lastStandAfter =
     lastStand\<lparr>projectiles := map (\<lambda>p. p\<lparr>active := False\<rparr>) (projectiles lastStand),
               player := (player lastStand)\<lparr>health := 0, active := False\<rparr>,
               rooms := [(Room_new 0 0 800 600 True)
                           \<lparr>enemies := [lastBoss\<lparr>health := 0, active := False\<rparr>]\<rparr>]\<rparr>"

definition lastStandOver :: Game where
  "lastStandOver =
     lastStandAfter\<lparr>rooms := [(Room_new 0 0 800 600 True)
                           \<lparr>enemies := [lastBoss\<lparr>health := 0, active := False\<rparr>],
                            cleared := True\<rparr>],
                     isGameOver := True\<rparr>"

definition exitReady :: Game where
  "exitReady =
     \<lparr>isMainMenu = False, isGameOver = False,
      player = (Player_new 780 300)\<lparr>health := 40, facing := UP, Player.shootCooldown := 1 / 10\<rparr>,
      rooms = [(Room_new 0 0 800 600 False)\<lparr>cleared := True\<rparr>,
               (Room_new 800 0 800 600 True)\<lparr>enemies := [lastBoss]\<rparr>],
      currentRoom = 0,
      projectiles = [Projectile_Fire Projectile_new 100 300 LEFT False, Projectile_new],
      rng = (\<lambda>n. 0)\<rparr>"

text \<open>
  A game in its first room, which is flagged as cleared and whose only enemy, a boss, is
  dead; the next room holds a living boss.
\<close>

definition bossDown :: Game where
  "bossDown =
     \<lparr>isMainMenu = False, isGameOver = False,
      player = (Player_new 400 300)\<lparr>health := 40\<rparr>,
      rooms = [(Room_new 0 0 800 600 False)
                 \<lparr>enemies := [lastBoss\<lparr>health := 0, active := False\<rparr>], cleared := True\<rparr>,
               (Room_new 800 0 800 600 True)\<lparr>enemies := [lastBoss]\<rparr>],
      currentRoom = 0,
      projectiles = [Projectile_Fire Projectile_new 100 300 LEFT False, Projectile_new],
      rng = (\<lambda>n. 0)\<rparr>"





text \<open>
  The frame in which ENTER is pressed; a frame of two seconds with D held down; the
  game constructed from the generator that only yields 0, after ENTER has started it.
\<close>

definition enterInput :: Input where
  "enterInput = quietInput\<lparr>keyENTER := True\<rparr>"

definition holdRight :: Input where
  "holdRight = quietInput\<lparr>keyD := True, frameTime := 2\<rparr>"

definition startedGame :: Game where
  "startedGame = (Game_new (\<lambda>n. 0))\<lparr>isMainMenu := False\<rparr>"

section \<open>Single-precision arithmetic\<close>


lemma rne_of_int [simp]: "rne (of_int k) = k"
  by (simp add: rne_def)


lemma ulp32_minus [simp]: "ulp32 (- r) = ulp32 r"
  by (simp add: ulp32_def)

lemma ulp32_pos [simp]: "0 < ulp32 r"
  by (simp add: ulp32_def)





lemma fneg_fneg [simp]: "fneg (fneg a) = a"
  by (cases a) simp_all




lemma round32_scaled_int:
  assumes "\<bar>m\<bar> < 2 ^ 24"
  shows "round32 (of_int m * 2 ^ k) = of_int m * 2 ^ k"
proof (cases "m = 0")
  case True then show ?thesis by (simp add: round32_def)
next
  case False
  let ?r = "of_int m * 2 ^ k :: real"
  define q where "q = max \<lfloor>log 2 \<bar>?r\<bar>\<rfloor> (- 126)"
  from False have p: "0 < \<bar>?r\<bar>" by simp
  from assms have "\<bar>real_of_int m\<bar> < 2 ^ 24"
    by (metis of_int_abs of_int_less_numeral_power_cancel_iff)
  then have "\<bar>?r\<bar> < 2 ^ 24 * 2 ^ k" by (simp add: abs_mult)
  also have "\<dots> = 2 powr (of_int (24 + int k))"
    by (simp add: powr_add powr_realpow flip: power_add)
  finally have "log 2 \<bar>?r\<bar> < of_int (24 + int k)" using p by (simp add: log_less_iff)
  then have "\<lfloor>log 2 \<bar>?r\<bar>\<rfloor> < 24 + int k" by (simp add: floor_less_iff)
  then have n: "0 \<le> int k + 23 - q" by (simp add: q_def)
  define n where "n = nat (int k + 23 - q)"
  have u: "ulp32 ?r = 2 powr (of_int q - 23)" by (simp add: ulp32_def q_def)
  have "2 ^ k / 2 powr (of_int q - 23) = (2::real) powr (of_int (int k) - (of_int q - 23))"
    by (simp add: powr_diff powr_realpow)
  also have "of_int (int k) - (of_int q - 23) = real n" using n by (simp add: n_def)
  finally have "2 ^ k / 2 powr (of_int q - 23) = (2::real) ^ n" by (simp add: powr_realpow)
  then have "of_int m * (2 ^ k / 2 powr (of_int q - 23)) = of_int m * (2::real) ^ n"
    by (simp only:)
  then have "?r / ulp32 ?r = of_int (m * 2 ^ n)" by (simp add: u)
  then have "rne (?r / ulp32 ?r) = m * 2 ^ n" by (simp only: rne_of_int)
  moreover have "of_int (m * 2 ^ n) * ulp32 ?r = ?r"
    using \<open>?r / ulp32 ?r = of_int (m * 2 ^ n)\<close> ulp32_pos [of ?r]
    by (metis less_numeral_extra(3) nonzero_eq_divide_eq)
  ultimately show ?thesis using False by (simp add: round32_def)
qed

lemma toFloat_exact:
  assumes "round32 r = r" "\<bar>r\<bar> < 2 ^ 128"
  shows "toFloat r = Finite r"
proof -
  from assms(2) have "\<not> 2 ^ 128 \<le> r" "\<not> r \<le> - (2 ^ 128)" by linarith+
  then show ?thesis unfolding toFloat_def Let_def assms(1) by (simp only: if_False)
qed

lemma toFloat_scaled_int:
  assumes "\<bar>m\<bar> < 2 ^ 24" "k \<le> 104"
  shows "toFloat (of_int m * 2 ^ k) = Finite (of_int m * 2 ^ k)"
proof -
  from assms(1) have "\<bar>real_of_int m\<bar> < 2 ^ 24"
    by (metis of_int_abs of_int_less_numeral_power_cancel_iff)
  moreover from assms(2) have "(2::real) ^ k \<le> 2 ^ 104" by (intro power_increasing) simp_all
  ultimately have "\<bar>real_of_int m\<bar> * 2 ^ k < 2 ^ 24 * 2 ^ 104"
    by (intro mult_less_le_imp_less) simp_all
  then have "\<bar>of_int m * 2 ^ k :: real\<bar> < 2 ^ 128" by (simp add: abs_mult)
  with round32_scaled_int [OF assms(1)] show ?thesis by (rule toFloat_exact)
qed

lemma fsub_Finite: "fsub (Finite a) (Finite b) = toFloat (a - b)"
  by (simp add: fsub_def)



lemma toFloat_numerals:
  "toFloat (- 16777216) = Finite (- 16777216)"
  "toFloat 281474976710656 = Finite 281474976710656"
  "toFloat 0 = Finite 0"
  "toFloat 16777216 = Finite 16777216"
  "toFloat 20 = Finite 20"
  "toFloat (- 20) = Finite (- 20)"
  "toFloat 30 = Finite 30"
  "toFloat (- 30) = Finite (- 30)"
  "toFloat 400 = Finite 400"
  "toFloat 900 = Finite 900"
  using toFloat_scaled_int [of "- 1" 24] toFloat_scaled_int [of 1 48]
    toFloat_scaled_int [of 0 0] toFloat_scaled_int [of 1 24]
    toFloat_scaled_int [of 20 0] toFloat_scaled_int [of "- 20" 0]
    toFloat_scaled_int [of 30 0] toFloat_scaled_int [of "- 30" 0]
    toFloat_scaled_int [of 400 0] toFloat_scaled_int [of 900 0]
  by simp_all











section \<open>Damage, and what the blocks of a tick preserve\<close>

lemma int32_id: "- (2 ^ 31) \<le> i \<Longrightarrow> i < 2 ^ 31 \<Longrightarrow> int32 i = i"
  by (simp add: int32_def)

lemma TakeDamage_eq:
  "TakeDamage e amount =
     (if int32 (health e - amount) \<le> 0 then e\<lparr>health := 0, active := False\<rparr>
      else e\<lparr>health := int32 (health e - amount)\<rparr>)"
  by (simp add: TakeDamage_def Let_def)

lemma TakeDamage_fields [simp]:
  "Entity.x (TakeDamage e a) = Entity.x e" "Entity.y (TakeDamage e a) = Entity.y e"
  "radius (TakeDamage e a) = radius e" "maxHealth (TakeDamage e a) = maxHealth e"
  "color (TakeDamage e a) = color e" "facing (TakeDamage e a) = facing e"
  "Entity.more (TakeDamage e a) = Entity.more e"
  by (simp_all add: TakeDamage_eq)

lemma foldl_TakeDamage_cong:
  "health e2 = health e1 \<Longrightarrow> active e2 = active e1 \<Longrightarrow>
   health (foldl TakeDamage e2 ds) = health (foldl TakeDamage e1 ds)
   \<and> active (foldl TakeDamage e2 ds) = active (foldl TakeDamage e1 ds)"
proof (induction ds arbitrary: e1 e2)
  case Nil then show ?case by simp
next
  case (Cons d ds)
  have "health (TakeDamage e2 d) = health (TakeDamage e1 d)"
       "active (TakeDamage e2 d) = active (TakeDamage e1 d)"
    using Cons.prems by (simp_all add: TakeDamage_eq)
  from Cons.IH [OF this] show ?case by simp
qed

lemma foldl_TakeDamage_active:
  "active (foldl TakeDamage e ds) \<Longrightarrow> active e"
proof (induction ds arbitrary: e)
  case Nil then show ?case by simp
next
  case (Cons d ds)
  then have "active (TakeDamage e d)" by simp
  then show ?case by (simp add: TakeDamage_eq split: if_splits)
qed

lemma TakeDamage_nonneg: "0 \<le> health (TakeDamage e d)"
  by (simp add: TakeDamage_eq)

lemma TakeDamage_deactivated:
  "active e \<Longrightarrow> \<not> active (TakeDamage e d) \<Longrightarrow> health (TakeDamage e d) = 0"
  by (simp add: TakeDamage_eq split: if_splits)

lemma TakeDamage_le:
  assumes "0 \<le> d" "d < 2 ^ 31" "0 \<le> health e" "health e < 2 ^ 31"
  shows "health (TakeDamage e d) \<le> health e"
proof -
  from assms have "int32 (health e - d) = health e - d" by (intro int32_id) simp_all
  with assms show ?thesis by (simp add: TakeDamage_eq)
qed

lemma foldl_TakeDamage_hurt:
  assumes "\<forall>d\<in>set ds. 0 \<le> d \<and> d < 2 ^ 31" "0 \<le> health e" "health e < 2 ^ 31"
  shows "0 \<le> health (foldl TakeDamage e ds) \<and> health (foldl TakeDamage e ds) \<le> health e
     \<and> (active e \<and> \<not> active (foldl TakeDamage e ds) \<longrightarrow> health (foldl TakeDamage e ds) = 0)"
  using assms
proof (induction ds arbitrary: e)
  case Nil then show ?case by simp
next
  case (Cons d ds)
  let ?e1 = "TakeDamage e d"
  let ?f = "foldl TakeDamage ?e1 ds"
  from Cons.prems have d: "0 \<le> d" "d < 2 ^ 31" and ds: "\<forall>d\<in>set ds. 0 \<le> d \<and> d < 2 ^ 31"
    by simp_all
  have 1: "0 \<le> health ?e1" by (rule TakeDamage_nonneg)
  have 2: "health ?e1 \<le> health e" using d Cons.prems(2,3) by (rule TakeDamage_le)
  with Cons.prems(3) have 3: "health ?e1 < 2 ^ 31" by simp
  note ih = Cons.IH [OF ds 1 3]
  from ih have a: "0 \<le> health ?f" and b: "health ?f \<le> health ?e1"
    and c: "active ?e1 \<and> \<not> active ?f \<longrightarrow> health ?f = 0" by blast+
  have "health ?f = 0" if "active e" "\<not> active ?f"
  proof (cases "active ?e1")
    case True with c that show ?thesis by simp
  next
    case False
    with that(1) have "health ?e1 = 0" by (simp add: TakeDamage_deactivated)
    with a b show ?thesis by simp
  qed
  with a b 2 show ?case by simp
qed

lemma damaged_hurt:
  assumes "damaged {5, 10} e e'" "0 \<le> health e" "health e < 2 ^ 31"
  shows "hurt e e'"
proof -
  from assms(1) obtain ds where s: "set ds \<subseteq> {5, 10}"
    and h: "health e' = health (foldl TakeDamage e ds)"
    and a: "active e' = active (foldl TakeDamage e ds)" unfolding damaged_def by blast
  from s have "\<forall>d\<in>set ds. 0 \<le> d \<and> d < 2 ^ 31" by auto
  from foldl_TakeDamage_hurt [OF this assms(2,3)] foldl_TakeDamage_active [of e ds] assms(1)
  show ?thesis unfolding hurt_def h a by blast
qed

lemma list_all2_damaged_hurt:
  assumes "list_all2 (damaged {5, 10}) es es'" "\<forall>e\<in>set es. 0 \<le> health e \<and> health e < 2 ^ 31"
  shows "list_all2 hurt es es'"
proof (rule list_all2_all_nthI)
  show "length es = length es'" using assms(1) by (rule list_all2_lengthD)
next
  fix n assume n: "n < length es"
  with assms(1) have "damaged {5, 10} (es ! n) (es' ! n)" by (rule list_all2_nthD)
  moreover from n assms(2) have "0 \<le> health (es ! n)" "health (es ! n) < 2 ^ 31" by simp_all
  ultimately show "hurt (es ! n) (es' ! n)" by (rule damaged_hurt)
qed

lemma list_all2_hurt_range:
  assumes "list_all2 hurt es es'" "\<forall>e\<in>set es. 0 \<le> health e \<and> health e < 2 ^ 31"
  shows "\<forall>e\<in>set es'. 0 \<le> health e \<and> health e < 2 ^ 31"
proof
  fix e' assume "e' \<in> set es'"
  then obtain n where n: "n < length es'" and e': "e' = es' ! n" by (auto simp: in_set_conv_nth)
  from assms(1) have l: "length es = length es'" by (rule list_all2_lengthD)
  with n assms(1) have "hurt (es ! n) (es' ! n)" by (simp add: list_all2_nthD)
  moreover from n l assms(2) have "health (es ! n) < 2 ^ 31" by simp
  ultimately show "0 \<le> health e' \<and> health e' < 2 ^ 31" unfolding e' hurt_def by simp
qed

lemma damaged_refl [simp]: "damaged A e e"
  unfolding damaged_def by (rule exI [of _ "[]"]) simp

lemma damaged_same: "health e' = health e \<Longrightarrow> active e' = active e \<Longrightarrow> damaged A e e'"
  unfolding damaged_def by (rule exI [of _ "[]"]) simp

lemma damaged_TakeDamage: "a \<in> A \<Longrightarrow> damaged A e (TakeDamage e a)"
  unfolding damaged_def by (rule exI [of _ "[a]"]) simp

lemma damaged_mono: "damaged A e e' \<Longrightarrow> A \<subseteq> B \<Longrightarrow> damaged B e e'"
  unfolding damaged_def by blast

lemma damaged_trans: 
  assumes "damaged A a b" "damaged A b c" shows "damaged A a c"
proof -
  from assms(1) obtain ds1 where s1: "set ds1 \<subseteq> A"
    and 1: "health b = health (foldl TakeDamage a ds1)"
    "active b = active (foldl TakeDamage a ds1)" unfolding damaged_def by blast
  from assms(2) obtain ds2 where s2: "set ds2 \<subseteq> A"
    and 2: "health c = health (foldl TakeDamage b ds2)"
    "active c = active (foldl TakeDamage b ds2)" unfolding damaged_def by blast
  from foldl_TakeDamage_cong [OF 1, of ds2] 2
  have "health c = health (foldl TakeDamage a (ds1 @ ds2))"
       "active c = active (foldl TakeDamage a (ds1 @ ds2))" by simp_all
  moreover from s1 s2 have "set (ds1 @ ds2) \<subseteq> A" by simp
  ultimately show ?thesis unfolding damaged_def by blast
qed

lemma damaged_active: "damaged A e e' \<Longrightarrow> active e' \<Longrightarrow> active e"
  unfolding damaged_def using foldl_TakeDamage_active by metis

lemma list_all2_damaged_refl [simp]: "list_all2 (damaged A) es es"
  by (simp add: list_all2_refl)

lemma list_all2_damaged_trans:
  "list_all2 (damaged A) as bs \<Longrightarrow> list_all2 (damaged A) bs cs \<Longrightarrow> list_all2 (damaged A) as cs"
  by (rule list_all2_trans [where ?P1.0 = "damaged A" and ?P2.0 = "damaged A"])
     (auto intro: damaged_trans)

lemma roomStep_refl [simp]: "roomStep A r r"
  by (simp add: roomStep_def)

lemma roomStep_trans: "roomStep A a b \<Longrightarrow> roomStep A b c \<Longrightarrow> roomStep A a c"
  unfolding roomStep_def using list_all2_damaged_trans by auto

lemma blockStep_refl [simp]: "blockStep A g g"
  by (simp add: blockStep_def)

lemma blockStep_trans [trans]: 
  assumes "blockStep A a b" "blockStep A b c" shows "blockStep A a c"
  using assms unfolding blockStep_def
  by (auto intro: damaged_trans roomStep_trans)


lemma FirePool_length [simp]: "length (FirePool ps sx sy d f) = length ps"
  by (induction ps) auto

lemma Player_Update_health [simp]:
  "health (Player_Update inp p) = health p" "active (Player_Update inp p) = active p"
  "radius (Player_Update inp p) = radius p"
  by (simp_all add: Player_Update_def Let_def)

lemma blockStep_player:
  "health p' = health (player g) \<Longrightarrow> active p' = active (player g) \<Longrightarrow>
   blockStep A g (g\<lparr>player := p'\<rparr>)"
  by (simp add: blockStep_def damaged_same)

lemma blockStep_Player_Update: "blockStep A g (g\<lparr>player := Player_Update inp (player g)\<rparr>)"
  by (rule blockStep_player) simp_all

lemma blockStep_KeepPlayerInside: "blockStep A g (KeepPlayerInside g)"
  unfolding KeepPlayerInside_def Let_def by (rule blockStep_player) simp_all

lemma blockStep_FireProjectile: "blockStep A g (FireProjectile sx sy d f g)"
  by (simp add: blockStep_def FireProjectile_def)

lemma blockStep_PlayerShooting: "blockStep A g (PlayerShooting inp g)"
proof (cases "keySPACE inp \<and> Player_CanShoot (player g)")
  case True
  let ?g1 = "FireProjectile (Entity.x (player g)) (Entity.y (player g)) (facing (player g)) False g"
  have "blockStep A ?g1 (?g1\<lparr>player := Player_ResetShootCooldown (player ?g1)\<rparr>)"
    by (rule blockStep_player) (simp_all add: Player_ResetShootCooldown_def)
  with blockStep_FireProjectile have "blockStep A g (?g1\<lparr>player := Player_ResetShootCooldown (player ?g1)\<rparr>)"
    by (rule blockStep_trans)
  with True show ?thesis by (simp add: PlayerShooting_def Let_def)
next
  case False then show ?thesis unfolding PlayerShooting_def by auto
qed

lemma blockStep_setRoom:
  "roomStep A (theRoom g) r' \<Longrightarrow> blockStep A g (setRoom r' g)"
proof -
  assume r: "roomStep A (theRoom g) r'"
  have "roomStep A (rooms g ! i) ((rooms g)[nat (currentRoom g) := r'] ! i)"
    if "i < length (rooms g)" for i
    using that r by (cases "i = nat (currentRoom g)") (simp_all add: theRoom_def)
  then show ?thesis
    by (simp add: blockStep_def setRoom_def)
qed

lemma enemiesShoot_step:
  "enemiesShoot es g = (es', g') \<Longrightarrow>
   list_all2 (damaged A) es es' \<and> blockStep A g g' \<and> rooms g' = rooms g"
proof (induction es arbitrary: g es' g')
  case Nil then show ?case by simp
next
  case (Cons e es)
  show ?case
  proof (cases "active e \<and> Enemy_CanShoot e")
    case True
    let ?g1 = "FireProjectile (Entity.x e) (Entity.y e) (facing e) True g"
    obtain es1 g1 where r: "enemiesShoot es ?g1 = (es1, g1)" by (cases "enemiesShoot es ?g1")
    with True Cons.prems have e: "es' = Enemy_ResetShootCooldown e # es1" "g' = g1" by simp_all
    from Cons.IH [OF r] have "list_all2 (damaged A) es es1" "blockStep A ?g1 g1" "rooms g1 = rooms ?g1" by simp_all
    moreover have "damaged A e (Enemy_ResetShootCooldown e)"
      by (rule damaged_same) (simp_all add: Enemy_ResetShootCooldown_def)
    moreover have "blockStep A g ?g1" by (rule blockStep_FireProjectile)
    moreover have "rooms ?g1 = rooms g" by (simp add: FireProjectile_def)
    ultimately show ?thesis using e by (auto intro: blockStep_trans)
  next
    case False
    obtain es1 g1 where r: "enemiesShoot es g = (es1, g1)" by (cases "enemiesShoot es g")
    with False Cons.prems have e: "es' = e # es1" "g' = g1" by auto
    from Cons.IH [OF r] show ?thesis using e by simp
  qed
qed

lemma blockStep_EnemyShooting: "blockStep A g (EnemyShooting g)"
proof -
  obtain es' g' where r: "enemiesShoot (enemies (theRoom g)) g = (es', g')"
    by (cases "enemiesShoot (enemies (theRoom g)) g")
  from enemiesShoot_step [OF r]
  have 1: "list_all2 (damaged A) (enemies (theRoom g)) es'" and 2: "blockStep A g g'"
    and 3: "rooms g' = rooms g" by simp_all
  from 2 have c: "currentRoom g' = currentRoom g" by (simp add: blockStep_def)
  have t: "theRoom g' = theRoom g" using 3 c by (simp add: theRoom_def)
  have "roomStep A (theRoom g') ((theRoom g')\<lparr>enemies := es'\<rparr>)"
    using 1 t by (simp add: roomStep_def)
  then have "blockStep A g' (setRoom ((theRoom g')\<lparr>enemies := es'\<rparr>) g')"
    by (rule blockStep_setRoom)
  with 2 have "blockStep A g (setRoom ((theRoom g')\<lparr>enemies := es'\<rparr>) g')"
    by (rule blockStep_trans)
  then show ?thesis using r by (simp add: EnemyShooting_def)
qed

lemma hitEnemies_step:
  "hitEnemies p es = (hit, es') \<Longrightarrow> damage p \<in> A \<Longrightarrow> list_all2 (damaged A) es es'"
proof (induction es arbitrary: hit es')
  case Nil then show ?case by simp
next
  case (Cons e es)
  show ?case
  proof (cases "active e \<and> IsColliding p e")
    case True
    with Cons.prems have "es' = TakeDamage e (damage p) # es" by auto
    with Cons.prems(2) show ?thesis by (simp add: damaged_TakeDamage)
  next
    case False
    obtain h1 es1 where r: "hitEnemies p es = (h1, es1)" by (cases "hitEnemies p es")
    with False Cons.prems have "es' = e # es1" by auto
    with Cons.IH [OF r Cons.prems(2)] show ?thesis by simp
  qed
qed

lemma roomStep_enemies:
  "list_all2 (damaged A) (enemies r) es' \<Longrightarrow> roomStep A r (r\<lparr>enemies := es'\<rparr>)"
  by (simp add: roomStep_def)

lemma Projectile_Update_damage [simp]: "damage (Projectile_Update p dt) = damage p"
  by (simp add: Projectile_Update_def)

lemma projectilesLoop_step:
  "projectilesLoop dt ps room pl = (ps', room', pl') \<Longrightarrow> \<forall>p\<in>set ps. damage p \<in> A \<Longrightarrow>
   length ps' = length ps \<and> roomStep A room room' \<and> damaged A pl pl'
   \<and> (\<forall>p\<in>set ps'. damage p \<in> A)"
proof (induction ps arbitrary: room pl ps' room' pl')
  case Nil then show ?case by simp
next
  case (Cons p ps)
  let ?p1 = "Projectile_Update p dt"
  from Cons.prems(2) have dp: "damage p \<in> A" and dps: "\<forall>p\<in>set ps. damage p \<in> A" by simp_all
  have dp1: "damage ?p1 \<in> A" using dp by simp
  consider (inactive) "\<not> active p"
    | (left) "active p" "\<not> ContainsPoint room (Entity.x ?p1) (Entity.y ?p1)"
    | (mine) "active p" "ContainsPoint room (Entity.x ?p1) (Entity.y ?p1)"
        "\<not> isEnemyProjectile ?p1"
    | (hit) "active p" "ContainsPoint room (Entity.x ?p1) (Entity.y ?p1)"
        "isEnemyProjectile ?p1" "IsColliding ?p1 pl"
    | (miss) "active p" "ContainsPoint room (Entity.x ?p1) (Entity.y ?p1)"
        "isEnemyProjectile ?p1" "\<not> IsColliding ?p1 pl"
    by blast
  then show ?case
  proof cases
    case inactive
    obtain a b c where r: "projectilesLoop dt ps room pl = (a, b, c)"
      by (cases "projectilesLoop dt ps room pl")
    with inactive Cons.prems(1) have "ps' = p # a" "room' = b" "pl' = c" by simp_all
    with Cons.IH [OF r dps] dp show ?thesis by simp
  next
    case left
    obtain a b c where r: "projectilesLoop dt ps room pl = (a, b, c)"
      by (cases "projectilesLoop dt ps room pl")
    with left Cons.prems(1) have "ps' = ?p1\<lparr>active := False\<rparr> # a" "room' = b" "pl' = c"
      by (auto simp: Let_def)
    with Cons.IH [OF r dps] dp show ?thesis by simp
  next
    case mine
    obtain h es1 where h: "hitEnemies ?p1 (enemies room) = (h, es1)"
      by (cases "hitEnemies ?p1 (enemies room)")
    obtain a b c where r: "projectilesLoop dt ps (room\<lparr>enemies := es1\<rparr>) pl = (a, b, c)"
      by (cases "projectilesLoop dt ps (room\<lparr>enemies := es1\<rparr>) pl")
    with mine h Cons.prems(1)
    have "ps' = (if h then ?p1\<lparr>active := False\<rparr> else ?p1) # a" "room' = b" "pl' = c"
      by (auto simp: Let_def)
    moreover have "roomStep A room (room\<lparr>enemies := es1\<rparr>)"
      using hitEnemies_step [OF h dp1] by (rule roomStep_enemies)
    ultimately show ?thesis using Cons.IH [OF r dps] dp by (auto intro: roomStep_trans)
  next
    case hit
    obtain a b c where r: "projectilesLoop dt ps room (TakeDamage pl (damage ?p1)) = (a, b, c)"
      by (cases "projectilesLoop dt ps room (TakeDamage pl (damage ?p1))")
    with hit Cons.prems(1) have "ps' = ?p1\<lparr>active := False\<rparr> # a" "room' = b" "pl' = c"
      by (auto simp: Let_def)
    moreover have "damaged A pl (TakeDamage pl (damage ?p1))"
      using dp1 by (rule damaged_TakeDamage)
    ultimately show ?thesis using Cons.IH [OF r dps] dp by (auto intro: damaged_trans)
  next
    case miss
    obtain a b c where r: "projectilesLoop dt ps room pl = (a, b, c)"
      by (cases "projectilesLoop dt ps room pl")
    with miss Cons.prems(1) have "ps' = ?p1 # a" "room' = b" "pl' = c"
      by (auto simp: Let_def)
    with Cons.IH [OF r dps] dp show ?thesis by simp
  qed
qed

lemma blockStep_UpdateProjectiles:
  assumes "poolWithin A g"
  shows "blockStep A g (UpdateProjectiles dt g)" and "poolWithin A (UpdateProjectiles dt g)"
proof -
  obtain a b c where r: "projectilesLoop dt (projectiles g) (theRoom g) (player g) = (a, b, c)"
    by (cases "projectilesLoop dt (projectiles g) (theRoom g) (player g)")
  from assms have "\<forall>p\<in>set (projectiles g). damage p \<in> A" by (simp add: poolWithin_def)
  from projectilesLoop_step [OF r this]
  have 1: "length a = length (projectiles g)" "roomStep A (theRoom g) b" "damaged A (player g) c"
    and 2: "\<forall>p\<in>set a. damage p \<in> A"
    by simp_all
  show "poolWithin A (UpdateProjectiles dt g)"
    using r 2 by (simp add: UpdateProjectiles_def poolWithin_def setRoom_def)
  let ?g1 = "g\<lparr>projectiles := a, player := c\<rparr>"
  have "blockStep A g ?g1" using 1 by (simp add: blockStep_def)
  moreover have "blockStep A ?g1 (setRoom b ?g1)"
    by (rule blockStep_setRoom) (use 1 in \<open>simp add: theRoom_def\<close>)
  ultimately have "blockStep A g (setRoom b ?g1)" by (rule blockStep_trans)
  then show "blockStep A g (UpdateProjectiles dt g)" using r by (simp add: UpdateProjectiles_def)
qed

lemma Enemy_ChangeDirection_health:
  "Enemy_ChangeDirection e gen = (e', gen') \<Longrightarrow>
   health e' = health e \<and> active e' = active e \<and> radius e' = radius e"
  by (auto simp: Enemy_ChangeDirection_def Let_def split: prod.splits if_splits)

lemma Enemy_Update_base_health:
  assumes "Enemy_Update_base dt pl e gen = (e', gen')"
  shows "health e' = health e \<and> active e' = active e"
proof -
  obtain e3 g3 where c: "Enemy_ChangeDirection (e\<lparr>aggro := False, moveTimer := moveTimer e + dt\<rparr>) gen = (e3, g3)"
    by (cases "Enemy_ChangeDirection (e\<lparr>aggro := False, moveTimer := moveTimer e + dt\<rparr>) gen")
  from Enemy_ChangeDirection_health [OF c] have "health e3 = health e" "active e3 = active e"
    by simp_all
  with assms c show ?thesis
    by (auto simp: Enemy_Update_base_def Let_def split: if_splits)
qed

lemma Enemy_Update_health:
  assumes "Enemy_Update dt pl e ev = (e', ev')"
  shows "health e' = health e \<and> active e' = active e"
proof -
  obtain clk gen where ev: "ev = (clk, gen)" by (cases ev)
  obtain e1 g1 where b: "Enemy_Update_base dt pl e gen = (e1, g1)"
    by (cases "Enemy_Update_base dt pl e gen")
  from Enemy_Update_base_health [OF b] assms ev b show ?thesis
    by (auto simp: Enemy_Update_def Let_def split: if_splits)
qed

lemma updateEnemies_step:
  "updateEnemies room dt pl es ev = (es', ev') \<Longrightarrow> map active es' = map active es \<and> map health es' = map health es"
proof (induction es arbitrary: ev es' ev')
  case Nil then show ?case by simp
next
  case (Cons e es)
  show ?case
  proof (cases "active e")
    case True
    obtain e1 ev1 where u: "Enemy_Update dt pl e ev = (e1, ev1)"
      by (cases "Enemy_Update dt pl e ev")
    obtain es1 ev2 where r: "updateEnemies room dt pl es ev1 = (es1, ev2)"
      by (cases "updateEnemies room dt pl es ev1")
    from True u r Cons.prems obtain e3 where e: "es' = e3 # es1" "active e3 = active e1" "health e3 = health e1"
      by (auto simp: Let_def)
    with Enemy_Update_health [OF u] Cons.IH [OF r] show ?thesis by simp
  next
    case False
    obtain es1 ev2 where r: "updateEnemies room dt pl es ev = (es1, ev2)"
      by (cases "updateEnemies room dt pl es ev")
    with False Cons.prems have "es' = e # es1" by auto
    with Cons.IH [OF r] show ?thesis by simp
  qed
qed

lemma checkCleared_iff: "checkCleared es = (\<forall>e\<in>set es. \<not> active e)"
  by (induction es) auto

lemma same_imp_damaged:
  "map active es' = map active es \<Longrightarrow> map health es' = map health es \<Longrightarrow> list_all2 (damaged A) es es'"
proof (induction es arbitrary: es')
  case Nil then show ?case by simp
next
  case (Cons e es)
  then obtain e' es1 where "es' = e' # es1" by (cases es') auto
  with Cons show ?case by (auto intro: damaged_same)
qed

lemma Room_Update_step:
  assumes "Room_Update dt pl r ev = (r', ev')"
  shows "roomStep A r r'" "cleared r' = (\<forall>e\<in>set (enemies r'). \<not> active e)"
    "map active (enemies r') = map active (enemies r)"
proof -
  obtain es1 ev1 where u: "updateEnemies r dt pl (enemies r) ev = (es1, ev1)"
    by (cases "updateEnemies r dt pl (enemies r) ev")
  with assms have r': "r' = r\<lparr>enemies := es1, cleared := checkCleared es1\<rparr>"
    by (simp add: Room_Update_def)
  from updateEnemies_step [OF u] have m: "map active es1 = map active (enemies r)"
    "map health es1 = map health (enemies r)" by simp_all
  show "roomStep A r r'" using same_imp_damaged [OF m] r' by (simp add: roomStep_def)
  show "cleared r' = (\<forall>e\<in>set (enemies r'). \<not> active e)" using r' by (simp add: checkCleared_iff)
  show "map active (enemies r') = map active (enemies r)" using m r' by simp
qed

lemma UpdateCurrentRoom_eq:
  "\<exists>r' gen'. UpdateCurrentRoom inp g = setRoom r' (g\<lparr>rng := gen'\<rparr>)
     \<and> roomStep A (theRoom g) r' \<and> cleared r' = (\<forall>e\<in>set (enemies r'). \<not> active e)"
proof -
  obtain r' clk' gen' where u: "Room_Update (frameTime inp) (player g) (theRoom g) (clock inp, rng g) = (r', (clk', gen'))"
    by (cases "Room_Update (frameTime inp) (player g) (theRoom g) (clock inp, rng g)") auto
  then have "UpdateCurrentRoom inp g = setRoom r' (g\<lparr>rng := gen'\<rparr>)"
    by (simp add: UpdateCurrentRoom_def)
  with Room_Update_step(1,2) [OF u] show ?thesis by blast
qed

lemma blockStep_UpdateCurrentRoom: "blockStep A g (UpdateCurrentRoom inp g)"
proof -
  from UpdateCurrentRoom_eq obtain r' gen' where
    e: "UpdateCurrentRoom inp g = setRoom r' (g\<lparr>rng := gen'\<rparr>)" and s: "roomStep A (theRoom g) r'"
    by blast
  have "blockStep A g (g\<lparr>rng := gen'\<rparr>)" by (simp add: blockStep_def)
  moreover have "blockStep A (g\<lparr>rng := gen'\<rparr>) (setRoom r' (g\<lparr>rng := gen'\<rparr>))"
    by (rule blockStep_setRoom) (use s in \<open>simp add: theRoom_def\<close>)
  ultimately show ?thesis unfolding e by (rule blockStep_trans)
qed

lemma theRoom_setRoom: "roomIndexValid g \<Longrightarrow> theRoom (setRoom r g) = r"
proof -
  assume "roomIndexValid g"
  then have "nat (currentRoom g) < length (rooms g)" by (simp add: roomIndexValid_def nat_less_iff)
  then show ?thesis by (simp add: theRoom_def setRoom_def)
qed

lemma Projectile_Fire_damage:
  "damage (Projectile_Fire p sx sy d f) = 5 \<or> damage (Projectile_Fire p sx sy d f) = 10"
  by (cases d) (simp_all add: Projectile_Fire_def Let_def)

lemma FirePool_damage:
  "\<forall>p\<in>set ps. damage p \<in> A \<Longrightarrow> {5, 10} \<subseteq> A \<Longrightarrow>
   \<forall>p\<in>set (FirePool ps sx sy d f). damage p \<in> A"
proof (induction ps)
  case Nil then show ?case by simp
next
  case (Cons p ps)
  from Projectile_Fire_damage [of p "spawnX sx d" "spawnY sy d" d f] Cons.prems(2)
  have "damage (Projectile_Fire p (spawnX sx d) (spawnY sy d) d f) \<in> A" by auto
  with Cons show ?case by simp
qed

lemma poolWithin_FireProjectile:
  "poolWithin A g \<Longrightarrow> {5, 10} \<subseteq> A \<Longrightarrow> poolWithin A (FireProjectile sx sy d f g)"
  by (simp add: poolWithin_def FireProjectile_def FirePool_damage)

lemma poolWithin_same:
  "projectiles g' = projectiles g \<Longrightarrow> poolWithin A g' = poolWithin A g"
  by (simp add: poolWithin_def)

lemma poolWithin_PlayerShooting:
  assumes "poolWithin A g" and "{5, 10} \<subseteq> A"
  shows "poolWithin A (PlayerShooting inp g)"
proof (cases "keySPACE inp \<and> Player_CanShoot (player g)")
  case True
  let ?g1 = "FireProjectile (Entity.x (player g)) (Entity.y (player g)) (facing (player g)) False g"
  from assms have "poolWithin A ?g1" by (rule poolWithin_FireProjectile)
  then have "poolWithin A (?g1\<lparr>player := Player_ResetShootCooldown (player ?g1)\<rparr>)"
    by (simp add: poolWithin_def)
  with True show ?thesis by (simp add: PlayerShooting_def Let_def)
next
  case False with assms(1) show ?thesis unfolding PlayerShooting_def by auto
qed

lemma enemiesShoot_pool:
  "enemiesShoot es g = (es', g') \<Longrightarrow> poolWithin A g \<Longrightarrow> {5, 10} \<subseteq> A \<Longrightarrow> poolWithin A g'"
proof (induction es arbitrary: g es' g')
  case Nil then show ?case by simp
next
  case (Cons e es)
  show ?case
  proof (cases "active e \<and> Enemy_CanShoot e")
    case True
    let ?g1 = "FireProjectile (Entity.x e) (Entity.y e) (facing e) True g"
    obtain es1 g1 where r: "enemiesShoot es ?g1 = (es1, g1)" by (cases "enemiesShoot es ?g1")
    with True Cons.prems(1) have e: "g' = g1" by simp
    from Cons.prems(2,3) have "poolWithin A ?g1" by (rule poolWithin_FireProjectile)
    from Cons.IH [OF r this Cons.prems(3)] e show ?thesis by simp
  next
    case False
    obtain es1 g1 where r: "enemiesShoot es g = (es1, g1)" by (cases "enemiesShoot es g")
    with False Cons.prems(1) have e: "g' = g1" by auto
    from Cons.IH [OF r Cons.prems(2,3)] e show ?thesis by simp
  qed
qed

lemma poolWithin_EnemyShooting:
  assumes "poolWithin A g" and "{5, 10} \<subseteq> A"
  shows "poolWithin A (EnemyShooting g)"
proof -
  obtain es' g' where r: "enemiesShoot (enemies (theRoom g)) g = (es', g')"
    by (cases "enemiesShoot (enemies (theRoom g)) g")
  from enemiesShoot_pool [OF r assms] have "poolWithin A g'" .
  then show ?thesis using r by (simp add: EnemyShooting_def poolWithin_def setRoom_def)
qed

lemma poolWithin_UpdateCurrentRoom:
  "poolWithin A (UpdateCurrentRoom inp g) = poolWithin A g"
  by (rule poolWithin_same) (simp add: UpdateCurrentRoom_def setRoom_def split: prod.splits)

lemma blockStep_BeforeProjectiles:
  assumes "poolWithin A g" and "{5, 10} \<subseteq> A"
  shows "blockStep A g (UpdateProjectiles dt (EnemyShooting (PlayerShooting inp
      (KeepPlayerInside (g\<lparr>player := Player_Update inp (player g)\<rparr>)))))"
    and "poolWithin A (UpdateProjectiles dt (EnemyShooting (PlayerShooting inp
      (KeepPlayerInside (g\<lparr>player := Player_Update inp (player g)\<rparr>)))))"
proof -
  let ?g1 = "g\<lparr>player := Player_Update inp (player g)\<rparr>"
  let ?g2 = "KeepPlayerInside ?g1"
  let ?g3 = "PlayerShooting inp ?g2"
  let ?g4 = "EnemyShooting ?g3"
  have "poolWithin A ?g2" using assms(1) by (simp add: poolWithin_def KeepPlayerInside_def Let_def)
  then have "poolWithin A ?g3" using assms(2) by (rule poolWithin_PlayerShooting)
  then have p4: "poolWithin A ?g4" using assms(2) by (rule poolWithin_EnemyShooting)
  then show "poolWithin A (UpdateProjectiles dt ?g4)" by (rule blockStep_UpdateProjectiles(2))
  have "blockStep A g ?g1" by (rule blockStep_Player_Update)
  also have "blockStep A ?g1 ?g2" by (rule blockStep_KeepPlayerInside)
  also have "blockStep A ?g2 ?g3" by (rule blockStep_PlayerShooting)
  also have "blockStep A ?g3 ?g4" by (rule blockStep_EnemyShooting)
  also have "blockStep A ?g4 (UpdateProjectiles dt ?g4)"
    using p4 by (rule blockStep_UpdateProjectiles(1))
  finally show "blockStep A g (UpdateProjectiles dt ?g4)" .
qed

lemma blockStep_BeforeTransition:
  assumes "poolWithin A g" and "{5, 10} \<subseteq> A"
  shows "blockStep A g (BeforeTransition inp g)" and "poolWithin A (BeforeTransition inp g)"
proof -
  show "blockStep A g (BeforeTransition inp g)"
    unfolding BeforeTransition_def
    using blockStep_BeforeProjectiles(1) [OF assms] blockStep_UpdateCurrentRoom
    by (rule blockStep_trans)
  show "poolWithin A (BeforeTransition inp g)"
    unfolding BeforeTransition_def poolWithin_UpdateCurrentRoom
    using assms by (rule blockStep_BeforeProjectiles(2))
qed

lemma blockStep_BeforeTransition_UNIV: "blockStep UNIV g (BeforeTransition inp g)"
  by (rule blockStep_BeforeTransition(1)) (simp_all add: poolWithin_def)

lemma cleared_BeforeTransition:
  assumes "roomIndexValid g"
  shows "cleared (theRoom (BeforeTransition inp g))
         = (\<forall>e\<in>set (enemies (theRoom (BeforeTransition inp g))). \<not> active e)"
proof -
  let ?g5 = "UpdateProjectiles (frameTime inp) (EnemyShooting (PlayerShooting inp
                (KeepPlayerInside (g\<lparr>player := Player_Update inp (player g)\<rparr>))))"
  have b: "blockStep UNIV g ?g5"
    by (rule blockStep_BeforeProjectiles(1)) (simp_all add: poolWithin_def)
  then have v: "roomIndexValid ?g5" using assms by (simp add: blockStep_def roomIndexValid_def)
  from UpdateCurrentRoom_eq [of inp ?g5] obtain r' gen' where
    e: "UpdateCurrentRoom inp ?g5 = setRoom r' (?g5\<lparr>rng := gen'\<rparr>)"
    and c: "cleared r' = (\<forall>e\<in>set (enemies r'). \<not> active e)" by blast
  from v have "roomIndexValid (?g5\<lparr>rng := gen'\<rparr>)" by (simp add: roomIndexValid_def)
  then have "theRoom (BeforeTransition inp g) = r'"
    unfolding BeforeTransition_def e by (rule theRoom_setRoom)
  with c show ?thesis by simp
qed

section \<open>The end of a tick and the evaluation of the concrete states\<close>

lemma RoomTransition_frame [simp]:
  "rooms (RoomTransition g) = rooms g" "isMainMenu (RoomTransition g) = isMainMenu g"
  "isGameOver (RoomTransition g) = isGameOver g"
  "projectiles (RoomTransition g) = projectiles g" "rng (RoomTransition g) = rng g"
  "health (player (RoomTransition g)) = health (player g)"
  "active (player (RoomTransition g)) = active (player g)"
  "Entity.y (player (RoomTransition g)) = Entity.y (player g)"
  "facing (player (RoomTransition g)) = facing (player g)"
  "Player.shootCooldown (player (RoomTransition g)) = Player.shootCooldown (player g)"
  by (simp_all add: RoomTransition_def Let_def)

lemma CheckWinLose_frame [simp]:
  "rooms (CheckWinLose g) = rooms g" "isMainMenu (CheckWinLose g) = isMainMenu g"
  "projectiles (CheckWinLose g) = projectiles g" "rng (CheckWinLose g) = rng g"
  "player (CheckWinLose g) = player g" "currentRoom (CheckWinLose g) = currentRoom g"
  by (simp_all add: CheckWinLose_def Let_def)

lemma poolWithin_end_of_tick [simp]:
  "poolWithin A (RoomTransition g) = poolWithin A g"
  "poolWithin A (CheckWinLose g) = poolWithin A g"
  by (simp_all add: poolWithin_def)

lemma CheckWinLose_defeat: "health (player g) \<le> 0 \<Longrightarrow> isGameOver (CheckWinLose g)"
  by (simp add: CheckWinLose_def Let_def)

lemma theRoom_CheckWinLose [simp]: "theRoom (CheckWinLose g) = theRoom g"
  by (simp add: theRoom_def)

lemma UpdateGame_Some:
  "UpdateGame inp g = Some g' \<longleftrightarrow>
     roomIndexValid g \<and> g' = CheckWinLose (RoomTransition (BeforeTransition inp g))"
  by (auto simp: UpdateGame_def)

lemma Update_playing: "playing g \<Longrightarrow> Update inp g = UpdateGame inp g"
  by (simp add: Update_def playing_def)

lemma tick_step:
  assumes "UpdateGame inp g = Some g'"
  shows "damaged UNIV (player g) (player g')" "length (rooms g') = length (rooms g)"
    "i < length (rooms g) \<Longrightarrow> roomStep UNIV (rooms g ! i) (rooms g' ! i)"
    "isMainMenu g' = isMainMenu g" "length (projectiles g') = length (projectiles g)"
proof -
  let ?b = "BeforeTransition inp g"
  from assms have g': "g' = CheckWinLose (RoomTransition ?b)" by (simp add: UpdateGame_Some)
  note b = blockStep_BeforeTransition_UNIV [of g inp, unfolded blockStep_def]
  have "damaged UNIV (player ?b) (player g')" unfolding g' by (rule damaged_same) simp_all
  with b show "damaged UNIV (player g) (player g')" by (blast intro: damaged_trans)
  show "length (rooms g') = length (rooms g)" using b by (simp add: g')
  show "roomStep UNIV (rooms g ! i) (rooms g' ! i)" if "i < length (rooms g)"
    using b that by (simp add: g')
  show "isMainMenu g' = isMainMenu g" using b by (simp add: g')
  show "length (projectiles g') = length (projectiles g)" using b by (simp add: g')
qed

lemma tick_damage:
  assumes "UpdateGame inp g = Some g'" and "poolWithin A g" and "{5, 10} \<subseteq> A"
  shows "damaged A (player g) (player g')"
    "i < length (rooms g) \<Longrightarrow> roomStep A (rooms g ! i) (rooms g' ! i)"
proof -
  let ?b = "BeforeTransition inp g"
  from assms(1) have g': "g' = CheckWinLose (RoomTransition ?b)" by (simp add: UpdateGame_Some)
  note b = blockStep_BeforeTransition(1) [OF assms(2,3), of inp, unfolded blockStep_def]
  have "damaged A (player ?b) (player g')" unfolding g' by (rule damaged_same) simp_all
  with b show "damaged A (player g) (player g')" by (blast intro: damaged_trans)
  show "roomStep A (rooms g ! i) (rooms g' ! i)" if "i < length (rooms g)"
    using b that by (simp add: g')
qed

lemma tick_hurt:
  assumes "UpdateGame inp g = Some g'" and "poolWithin {5, 10} g" and "healthSound g"
  shows "hurt (player g) (player g')"
    "i < length (rooms g) \<Longrightarrow> list_all2 hurt (enemies (rooms g ! i)) (enemies (rooms g' ! i))"
proof -
  note t = tick_damage [OF assms(1,2) subset_refl]
  from t(1) assms(3) show "hurt (player g) (player g')"
    by (intro damaged_hurt) (simp_all add: healthSound_def)
  show "list_all2 hurt (enemies (rooms g ! i)) (enemies (rooms g' ! i))" if "i < length (rooms g)"
  proof (rule list_all2_damaged_hurt)
    from t(2) [OF that]
    show "list_all2 (damaged {5, 10}) (enemies (rooms g ! i)) (enemies (rooms g' ! i))"
      by (simp add: roomStep_def)
    from that have "rooms g ! i \<in> set (rooms g)" by simp
    with assms(3)
    show "\<forall>e\<in>set (enemies (rooms g ! i)). 0 \<le> health e \<and> health e < 2 ^ 31"
      unfolding healthSound_def by blast
  qed
qed

lemma healthSound_tick:
  assumes "UpdateGame inp g = Some g'" and "poolWithin {5, 10} g" and "healthSound g"
  shows "healthSound g'"
proof -
  note h = tick_hurt [OF assms]
  from tick_step(2) [OF assms(1)] have l: "length (rooms g') = length (rooms g)" .
  have "0 \<le> health e \<and> health e < 2 ^ 31" if r: "r \<in> set (rooms g')" and e: "e \<in> set (enemies r)"
    for r e
  proof -
    from r obtain i where i: "i < length (rooms g')" and ri: "r = rooms g' ! i"
      by (auto simp: in_set_conv_nth)
    from i l have i': "i < length (rooms g)" by simp
    from i' have "rooms g ! i \<in> set (rooms g)" by simp
    with assms(3) have "\<forall>e\<in>set (enemies (rooms g ! i)). 0 \<le> health e \<and> health e < 2 ^ 31"
      unfolding healthSound_def by blast
    with h(2) [OF i'] have "\<forall>e\<in>set (enemies (rooms g' ! i)). 0 \<le> health e \<and> health e < 2 ^ 31"
      by (rule list_all2_hurt_range)
    with e ri show ?thesis by simp
  qed
  moreover from h(1) assms(3) have "0 \<le> health (player g')" "health (player g') < 2 ^ 31"
    by (simp_all add: hurt_def healthSound_def)
  ultimately show ?thesis unfolding healthSound_def by blast
qed

lemma checkCleared_map: "map active es' = map active es \<Longrightarrow> checkCleared es' = checkCleared es"
proof (induction es arbitrary: es')
  case Nil then show ?case by simp
next
  case (Cons e es)
  from Cons.prems obtain e' es1 where e: "es' = e' # es1" by (cases es') auto
  with Cons.prems have "active e' = active e" "map active es1 = map active es" by simp_all
  with Cons.IH [of es1] e show ?case by simp
qed

lemma FirePool_first:
  "i < length ps \<Longrightarrow> \<not> active (ps ! i) \<Longrightarrow> \<forall>j<i. active (ps ! j) \<Longrightarrow>
   FirePool ps sx sy d f = ps[i := Projectile_Fire (ps ! i) (spawnX sx d) (spawnY sy d) d f]"
proof (induction ps arbitrary: i)
  case Nil then show ?case by simp
next
  case (Cons p ps)
  show ?case
  proof (cases i)
    case 0 with Cons.prems show ?thesis by simp
  next
    case (Suc k)
    with Cons.prems have "active p" by auto
    moreover have "FirePool ps sx sy d f = ps[k := Projectile_Fire (ps ! k) (spawnX sx d) (spawnY sy d) d f]"
      using Cons.prems Suc by (intro Cons.IH) auto
    ultimately show ?thesis using Suc by simp
  qed
qed

lemma FirePool_full: "\<forall>p\<in>set ps. active p \<Longrightarrow> FirePool ps sx sy d f = ps"
  by (induction ps) auto

lemma Projectile_Fire_active [simp]: "active (Projectile_Fire p sx sy d f)"
  by (cases d) (simp_all add: Projectile_Fire_def Let_def)

lemma Projectile_Fire_RIGHT_player:
  "Projectile_Fire p sx sy RIGHT False =
     p\<lparr>Entity.x := sx, Entity.y := sy, active := True, color := YELLOW,
       Projectile.speedX := 400, Projectile.speedY := 0, isEnemyProjectile := False, damage := 10\<rparr>"
  by (simp add: Projectile_Fire_def Let_def PROJECTILE_SPEED_def)

lemma Projectile_Fire_DOWN_enemy:
  "Projectile_Fire p sx sy DOWN True =
     p\<lparr>Entity.x := sx, Entity.y := sy, active := True, color := RED,
       Projectile.speedX := 0, Projectile.speedY := 400, isEnemyProjectile := True, damage := 5\<rparr>"
  by (simp add: Projectile_Fire_def Let_def PROJECTILE_SPEED_def)

lemma ResetGame_projectiles:
  "projectiles (ResetGame g) = map (\<lambda>p. p\<lparr>active := False\<rparr>) (projectiles g)"
  by (simp add: ResetGame_def Let_def split: prod.splits)

lemma Game_new_projectiles: "projectiles (Game_new seed) = replicate 100 Projectile_new"
  by (simp add: Game_new_def ResetGame_projectiles Projectile_new_def)

lemma ls1: "Player_Update quietInput (player lastStand) = player lastStand"
  by (simp add: Player_Update_def quietInput_def lastStand_def Player_new_def Let_def)

lemma ls2: "KeepPlayerInside lastStand = lastStand"
  by (simp add: KeepPlayerInside_def lastStand_def Player_new_def Let_def theRoom_def Room_new_def)

lemma ls3: "PlayerShooting quietInput lastStand = lastStand"
  by (simp add: PlayerShooting_def quietInput_def)

lemma ls4: "EnemyShooting lastStand = lastStand"
  by (simp add: EnemyShooting_def lastStand_def theRoom_def lastBoss_def Enemy_CanShoot_def setRoom_def Room_new_def)

lemma ls5: "UpdateProjectiles 0 lastStand = lastStandAfter"
  by (simp add: UpdateProjectiles_def lastStandAfter_def lastStand_def theRoom_def setRoom_def
      Projectile_Fire_def Projectile_new_def Projectile_Update_def ContainsPoint_def Room_new_def
      IsColliding_def fsub_Finite toFloat_numerals lastBoss_def TakeDamage_def int32_def
      Player_new_def Let_def PLAYER_HEALTH_def)

lemma ls6: "UpdateCurrentRoom quietInput lastStandAfter = lastStandOver\<lparr>isGameOver := False\<rparr>"
  by (simp add: UpdateCurrentRoom_def lastStandAfter_def lastStand_def theRoom_def setRoom_def
       Room_Update_def Room_new_def lastBoss_def lastStandOver_def quietInput_def)

lemma ls7: "BeforeTransition quietInput lastStand = lastStandOver\<lparr>isGameOver := False\<rparr>"
proof -
  have "lastStand\<lparr>player := Player_Update quietInput (player lastStand)\<rparr> = lastStand"
    by (simp add: ls1)
  moreover have "frameTime quietInput = 0" by (simp add: quietInput_def)
  ultimately show ?thesis by (simp add: BeforeTransition_def ls2 ls3 ls4 ls5 ls6)
qed

lemma ls8: "RoomTransition (lastStandOver\<lparr>isGameOver := False\<rparr>) = lastStandOver\<lparr>isGameOver := False\<rparr>"
  by (simp add: RoomTransition_def lastStandOver_def lastStandAfter_def lastStand_def theRoom_def
       Room_new_def Player_new_def Let_def)

lemma ls9: "CheckWinLose (lastStandOver\<lparr>isGameOver := False\<rparr>) = lastStandOver"
  by (simp add: CheckWinLose_def lastStandOver_def lastStandAfter_def lastStand_def theRoom_def
       Room_new_def Player_new_def Let_def size_t_def)

lemma lastStand_tick: "UpdateGame quietInput lastStand = Some lastStandOver"
proof -
  have "roomIndexValid lastStand" by (simp add: roomIndexValid_def lastStand_def)
  then show ?thesis by (simp add: UpdateGame_def ls7 ls8 ls9)
qed

lemma lastStandOver_victory:
  "size_t (currentRoom lastStandOver) = size_t (int (length (rooms lastStandOver)) - 1)
   \<and> cleared (theRoom lastStandOver)"
  by (simp add: lastStandOver_def lastStandAfter_def lastStand_def theRoom_def)

section \<open>The level, the invariant of reachable states, and sessions\<close>

lemma Enemy_new_active:
  "Enemy_new ex ey gen = (e, gen') \<Longrightarrow> active e \<and> \<not> aggro e"
  by (auto simp: Enemy_new_def Enemy_ChangeDirection_def Let_def split: prod.splits if_splits)

lemma AddEnemy_frame:
  "AddEnemy ex ey r gen = (r', gen') \<Longrightarrow>
   Room.x r' = Room.x r \<and> Room.y r' = Room.y r \<and> width r' = width r \<and> height r' = height r
   \<and> cleared r' = cleared r \<and> (\<exists>e. enemies r' = enemies r @ [e] \<and> active e \<and> \<not> aggro e)"
  by (auto simp: AddEnemy_def split: prod.splits dest: Enemy_new_active)

lemma AddBoss_frame:
  "AddBoss ex ey r gen = (r', gen') \<Longrightarrow>
   Room.x r' = Room.x r \<and> Room.y r' = Room.y r \<and> width r' = width r \<and> height r' = height r
   \<and> cleared r' = cleared r"
  by (auto simp: AddBoss_def Boss_new_def split: prod.splits)

lemma addEnemies_frame:
  "addEnemies n i r gen = (r', gen') \<Longrightarrow>
   Room.x r' = Room.x r \<and> Room.y r' = Room.y r \<and> width r' = width r \<and> height r' = height r
   \<and> cleared r' = cleared r \<and> length (enemies r') = length (enemies r) + n
   \<and> ((\<forall>e\<in>set (enemies r). active e \<and> \<not> aggro e) \<longrightarrow> (\<forall>e\<in>set (enemies r'). active e \<and> \<not> aggro e))"
proof (induction n arbitrary: r gen)
  case 0 then show ?case by simp
next
  case (Suc n)
  obtain ex g1 where a: "uniform_real (real i * 800 + 100) (real i * 800 + 700) gen = (ex, g1)"
    by (cases "uniform_real (real i * 800 + 100) (real i * 800 + 700) gen")
  obtain ey g2 where b: "uniform_real 100 500 g1 = (ey, g2)" by (cases "uniform_real 100 500 g1")
  obtain r1 g3 where c: "AddEnemy ex ey r g2 = (r1, g3)" by (cases "AddEnemy ex ey r g2")
  from Suc.prems a b c have d: "addEnemies n i r1 g3 = (r', gen')" by simp
  from AddEnemy_frame [OF c] obtain e where
    f: "Room.x r1 = Room.x r" "Room.y r1 = Room.y r" "width r1 = width r" "height r1 = height r"
      "cleared r1 = cleared r" and e: "enemies r1 = enemies r @ [e]" "active e" "\<not> aggro e"
    by blast
  note ih = Suc.IH [OF d]
  from ih have g: "Room.x r' = Room.x r1" "Room.y r' = Room.y r1" "width r' = width r1"
    "height r' = height r1" "cleared r' = cleared r1" by blast+
  from ih have "length (enemies r') = length (enemies r1) + n" by blast
  with e(1) have len: "length (enemies r') = length (enemies r) + Suc n" by simp
  have act: "\<forall>e\<in>set (enemies r'). active e \<and> \<not> aggro e"
    if "\<forall>e\<in>set (enemies r). active e \<and> \<not> aggro e"
  proof -
    from that e have "\<forall>e\<in>set (enemies r1). active e \<and> \<not> aggro e" by simp
    with ih show ?thesis by blast
  qed
  show ?case unfolding g f using len act by blast
qed

lemma createRoom_frame:
  "createRoom i gen = (r, gen') \<Longrightarrow>
   Room.x r = real i * 800 \<and> width r = 800 \<and> \<not> cleared r"
  by (auto simp: createRoom_def Let_def Room_new_def split: if_splits prod.splits
      dest!: AddBoss_frame addEnemies_frame)

lemma createRooms_frame:
  "createRooms is rs gen = (rs', gen') \<Longrightarrow>
   length rs' = length rs + length is
   \<and> (\<forall>k<length rs. rs' ! k = rs ! k)
   \<and> (\<forall>k<length is. Room.x (rs' ! (length rs + k)) = real (is ! k) * 800
          \<and> width (rs' ! (length rs + k)) = 800 \<and> \<not> cleared (rs' ! (length rs + k)))"
proof (induction "is" arbitrary: rs gen)
  case Nil then show ?case by simp
next
  case (Cons i "is")
  obtain r g1 where a: "createRoom i gen = (r, g1)" by (cases "createRoom i gen")
  with Cons.prems have b: "createRooms is (rs @ [r]) g1 = (rs', gen')" by simp
  note ih = Cons.IH [OF b]
  note cr = createRoom_frame [OF a]
  have 1: "length rs' = length rs + length (i # is)" using ih by simp
  have 2: "\<forall>k<length rs. rs' ! k = rs ! k"
  proof (intro allI impI)
    fix k assume "k < length rs"
    with ih have "rs' ! k = (rs @ [r]) ! k" by simp
    with \<open>k < length rs\<close> show "rs' ! k = rs ! k" by (simp add: nth_append)
  qed
  have hd: "rs' ! length rs = r"
  proof -
    from ih have "rs' ! length rs = (rs @ [r]) ! length rs" by simp
    then show ?thesis by simp
  qed
  have 3: "Room.x (rs' ! (length rs + k)) = real ((i # is) ! k) * 800
          \<and> width (rs' ! (length rs + k)) = 800 \<and> \<not> cleared (rs' ! (length rs + k))"
    if "k < length (i # is)" for k
  proof (cases k)
    case 0 with cr hd show ?thesis by simp
  next
    case (Suc j)
    with that have "j < length is" by simp
    with ih have "Room.x (rs' ! (length (rs @ [r]) + j)) = real (is ! j) * 800
          \<and> width (rs' ! (length (rs @ [r]) + j)) = 800 \<and> \<not> cleared (rs' ! (length (rs @ [r]) + j))"
      by blast
    with Suc show ?thesis by simp
  qed
  from 1 2 3 show ?case by blast
qed

lemma Enemy_new_health:
  "Enemy_new ex ey gen = (e, gen') \<Longrightarrow> health e = 30"
  by (auto simp: Enemy_new_def Enemy_ChangeDirection_def Let_def ENEMY_HEALTH_def
      split: prod.splits if_splits)

lemma AddEnemy_health:
  assumes "AddEnemy ex ey r gen = (r', gen')"
    and "\<forall>e\<in>set (enemies r). 0 \<le> health e \<and> health e < 2 ^ 31"
  shows "\<forall>e\<in>set (enemies r'). 0 \<le> health e \<and> health e < 2 ^ 31"
proof -
  obtain e g1 where a: "Enemy_new ex ey gen = (e, g1)" by (cases "Enemy_new ex ey gen")
  with assms(1) have "enemies r' = enemies r @ [e]" by (auto simp: AddEnemy_def)
  moreover from a have "health e = 30" by (rule Enemy_new_health)
  ultimately show ?thesis using assms(2) by simp
qed

lemma AddBoss_health:
  assumes "AddBoss ex ey r gen = (r', gen')"
    and "\<forall>e\<in>set (enemies r). 0 \<le> health e \<and> health e < 2 ^ 31"
  shows "\<forall>e\<in>set (enemies r'). 0 \<le> health e \<and> health e < 2 ^ 31"
proof -
  obtain e g1 where a: "Boss_new ex ey gen = (e, g1)" by (cases "Boss_new ex ey gen")
  with assms(1) have "enemies r' = enemies r @ [e]" by (auto simp: AddBoss_def)
  moreover from a have "health e = 150"
    by (auto simp: Boss_new_def BOSS_HEALTH_def split: prod.splits)
  ultimately show ?thesis using assms(2) by simp
qed

lemma addEnemies_health:
  "addEnemies n i r gen = (r', gen') \<Longrightarrow>
   \<forall>e\<in>set (enemies r). 0 \<le> health e \<and> health e < 2 ^ 31 \<Longrightarrow>
   \<forall>e\<in>set (enemies r'). 0 \<le> health e \<and> health e < 2 ^ 31"
proof (induction n arbitrary: r gen)
  case 0 then show ?case by simp
next
  case (Suc n)
  obtain ex g1 where a: "uniform_real (real i * 800 + 100) (real i * 800 + 700) gen = (ex, g1)"
    by (cases "uniform_real (real i * 800 + 100) (real i * 800 + 700) gen")
  obtain ey g2 where b: "uniform_real 100 500 g1 = (ey, g2)" by (cases "uniform_real 100 500 g1")
  obtain r1 g3 where c: "AddEnemy ex ey r g2 = (r1, g3)" by (cases "AddEnemy ex ey r g2")
  from Suc.prems(1) a b c have d: "addEnemies n i r1 g3 = (r', gen')" by simp
  from c Suc.prems(2) have "\<forall>e\<in>set (enemies r1). 0 \<le> health e \<and> health e < 2 ^ 31"
    by (rule AddEnemy_health)
  with d show ?case by (rule Suc.IH)
qed

lemma createRoom_health:
  assumes "createRoom i gen = (r, gen')"
  shows "\<forall>e\<in>set (enemies r). 0 \<le> health e \<and> health e < 2 ^ 31"
proof (cases "i = 4")
  case True
  with assms have "AddBoss (real i * 800 + 400) 300 (Room_new (real i * 800) 0 800 600 True) gen
      = (r, gen')" by (simp add: createRoom_def Let_def)
  then show ?thesis by (rule AddBoss_health) (simp add: Room_new_def)
next
  case False
  obtain c g1 where u: "uniform_int 3 6 gen = (c, g1)" by (cases "uniform_int 3 6 gen")
  with False assms have "addEnemies (nat c) i (Room_new (real i * 800) 0 800 600 False) g1
      = (r, gen')" by (simp add: createRoom_def Let_def)
  then show ?thesis by (rule addEnemies_health) (simp add: Room_new_def)
qed

lemma createRooms_health:
  "createRooms is rs gen = (rs', gen') \<Longrightarrow>
   \<forall>r\<in>set rs. \<forall>e\<in>set (enemies r). 0 \<le> health e \<and> health e < 2 ^ 31 \<Longrightarrow>
   \<forall>r\<in>set rs'. \<forall>e\<in>set (enemies r). 0 \<le> health e \<and> health e < 2 ^ 31"
proof (induction "is" arbitrary: rs gen)
  case Nil then show ?case by simp
next
  case (Cons i "is")
  obtain r g1 where a: "createRoom i gen = (r, g1)" by (cases "createRoom i gen")
  with Cons.prems(1) have b: "createRooms is (rs @ [r]) g1 = (rs', gen')" by simp
  from createRoom_health [OF a] Cons.prems(2)
  have "\<forall>r\<in>set (rs @ [r]). \<forall>e\<in>set (enemies r). 0 \<le> health e \<and> health e < 2 ^ 31" by simp
  with b show ?case by (rule Cons.IH)
qed

lemma healthSound_ResetGame: "healthSound (ResetGame g)"
proof -
  obtain rs gen' where c: "createRooms [0, 1, 2, 3, 4] [] (rng g) = (rs, gen')"
    by (cases "createRooms [0, 1, 2, 3, 4] [] (rng g)")
  then have r: "rooms (ResetGame g) = rs" "player (ResetGame g) = Player_new 400 300"
    by (simp_all add: ResetGame_def Let_def)
  from c have "\<forall>r\<in>set rs. \<forall>e\<in>set (enemies r). 0 \<le> health e \<and> health e < 2 ^ 31"
    by (rule createRooms_health) simp
  then show ?thesis unfolding healthSound_def r
    by (simp add: Player_new_def PLAYER_HEALTH_def)
qed

lemma levelInvariant_ResetGame:
  assumes "length (projectiles g) = 100" and "poolWithin {5, 10} g"
  shows "levelInvariant (ResetGame g)"
proof -
  obtain rs gen' where c: "createRooms [0, 1, 2, 3, 4] [] (rng g) = (rs, gen')"
    by (cases "createRooms [0, 1, 2, 3, 4] [] (rng g)")
  from createRooms_frame [OF c] have l: "length rs = 5"
    and k: "\<And>k. k < 5 \<Longrightarrow> Room.x (rs ! k) = real ([0, 1, 2, 3, 4] ! k) * 800
          \<and> width (rs ! k) = 800 \<and> \<not> cleared (rs ! k)" by simp_all
  have n: "[0, 1, 2, 3, 4] ! k = k" if "k < 5" for k :: nat
  proof -
    from that have "k = 0 \<or> k = 1 \<or> k = 2 \<or> k = 3 \<or> k = 4" by arith
    then show ?thesis by auto
  qed
  have r: "rooms (ResetGame g) = rs" "currentRoom (ResetGame g) = 0"
    "length (projectiles (ResetGame g)) = 100"
    using c assms(1) by (simp_all add: ResetGame_def Let_def)
  have w: "poolWithin {5, 10} (ResetGame g)"
    using assms(2) by (simp add: poolWithin_def ResetGame_projectiles)
  show ?thesis unfolding levelInvariant_def r
    using l k n w by (simp add: clearedSound_def)
qed

lemma ResetGame_mode [simp]:
  "isMainMenu (ResetGame g) = isMainMenu g" "isGameOver (ResetGame g) = False"
  by (simp_all add: ResetGame_def Let_def split: prod.splits)

lemma levelInvariant_Game_new: "levelInvariant (Game_new seed)"
  unfolding Game_new_def
  by (rule levelInvariant_ResetGame) (simp_all add: poolWithin_def Projectile_new_def)

lemma size_t_small: "0 \<le> i \<Longrightarrow> i < 2 ^ 64 \<Longrightarrow> size_t i = i"
  by (simp add: size_t_def)

lemma next_room_exists:
  assumes "roomIndexValid g" and "int (length (rooms g)) \<le> 2 ^ 64"
  shows "size_t (currentRoom g) < size_t (int (length (rooms g)) - 1)
         \<longleftrightarrow> currentRoom g + 1 < int (length (rooms g))"
proof -
  from assms have "size_t (currentRoom g) = currentRoom g"
    by (intro size_t_small) (simp_all add: roomIndexValid_def)
  moreover have "size_t (int (length (rooms g)) - 1) = int (length (rooms g)) - 1"
  proof (rule size_t_small)
    from assms(1) show "0 \<le> int (length (rooms g)) - 1" unfolding roomIndexValid_def by linarith
    from assms(2) show "int (length (rooms g)) - 1 < 2 ^ 64" by linarith
  qed
  ultimately show ?thesis by (simp only: less_diff_eq)
qed

lemma RoomTransition_cursor:
  "currentRoom (RoomTransition g) =
     (if cleared (theRoom g) \<and> Entity.x (player g) > Room.x (theRoom g) + width (theRoom g) - 50
         \<and> size_t (currentRoom g) < size_t (int (length (rooms g)) - 1)
      then currentRoom g + 1 else currentRoom g)"
  by (simp add: RoomTransition_def Let_def)

lemma RoomTransition_player_x:
  "Entity.x (player (RoomTransition g)) =
     (if cleared (theRoom g) \<and> Entity.x (player g) > Room.x (theRoom g) + width (theRoom g) - 50
      then (if size_t (currentRoom g) < size_t (int (length (rooms g)) - 1)
            then Room.x (rooms g ! nat (currentRoom g + 1)) + 50 else Entity.x (player g))
      else if Entity.x (player g) > Room.x (theRoom g) + width (theRoom g) - 50
      then Room.x (theRoom g) + width (theRoom g) - 50
      else Entity.x (player g))"
  by (simp add: RoomTransition_def Let_def theRoom_def)

lemma levelInvariant_valid: "levelInvariant g \<Longrightarrow> roomIndexValid g"
  by (simp add: levelInvariant_def roomIndexValid_def)

lemma levelInvariant_BeforeTransition:
  assumes "levelInvariant g"
  shows "levelInvariant (BeforeTransition inp g)"
proof -
  let ?b = "BeforeTransition inp g"
  note s = blockStep_BeforeTransition_UNIV [of g inp, unfolded blockStep_def]
  from assms have v: "roomIndexValid g" by (rule levelInvariant_valid)
  have l: "length (rooms g) = 5" using assms by (simp add: levelInvariant_def)
  have c: "currentRoom ?b = currentRoom g" using s by blast
  have "Room.x (rooms ?b ! i) = real i * 800 \<and> width (rooms ?b ! i) = 800
        \<and> clearedSound (rooms ?b ! i)" if i: "i < 5" for i
  proof -
    from s i l have r: "roomStep UNIV (rooms g ! i) (rooms ?b ! i)"
      and u: "i \<noteq> nat (currentRoom g) \<Longrightarrow> rooms ?b ! i = rooms g ! i" by simp_all
    from assms i have a: "Room.x (rooms g ! i) = real i * 800" "width (rooms g ! i) = 800"
      "clearedSound (rooms g ! i)" by (simp_all add: levelInvariant_def)
    have "clearedSound (rooms ?b ! i)"
    proof (cases "i = nat (currentRoom g)")
      case True
      then have "rooms ?b ! i = theRoom ?b" by (simp add: theRoom_def c)
      with cleared_BeforeTransition [OF v, of inp] show ?thesis by (simp add: clearedSound_def)
    next
      case False with u a show ?thesis by simp
    qed
    with r a show ?thesis by (simp add: roomStep_def)
  qed
  moreover have "length (rooms ?b) = 5" using s l by simp
  moreover have "length (projectiles ?b) = 100" using s assms by (simp add: levelInvariant_def)
  moreover have "poolWithin {5, 10} ?b"
    by (rule blockStep_BeforeTransition(2)) (use assms in \<open>simp_all add: levelInvariant_def\<close>)
  moreover have "0 \<le> currentRoom ?b \<and> currentRoom ?b < 5"
    using c assms by (simp add: levelInvariant_def)
  ultimately show ?thesis by (simp add: levelInvariant_def)
qed

lemma levelInvariant_RoomTransition:
  assumes "levelInvariant g"
  shows "levelInvariant (RoomTransition g)"
proof -
  from assms have v: "roomIndexValid g" by (rule levelInvariant_valid)
  have l: "length (rooms g) = 5" using assms by (simp add: levelInvariant_def)
  have "size_t (currentRoom g) < size_t (int (length (rooms g)) - 1)
         \<longleftrightarrow> currentRoom g + 1 < int (length (rooms g))"
    using v by (rule next_room_exists) (simp add: l)
  then have "0 \<le> currentRoom (RoomTransition g) \<and> currentRoom (RoomTransition g) < 5"
    using assms l by (simp add: RoomTransition_cursor levelInvariant_def)
  with assms show ?thesis by (simp add: levelInvariant_def)
qed

lemma levelInvariant_CheckWinLose:
  "levelInvariant g \<Longrightarrow> levelInvariant (CheckWinLose g)"
  by (simp add: levelInvariant_def)

lemma levelInvariant_UpdateGame:
  "levelInvariant g \<Longrightarrow> UpdateGame inp g = Some g' \<Longrightarrow> levelInvariant g'"
  by (auto simp: UpdateGame_Some intro!: levelInvariant_CheckWinLose levelInvariant_RoomTransition
        levelInvariant_BeforeTransition)

lemma levelInvariant_Update:
  assumes "levelInvariant g" and "Update inp g = Some g'"
  shows "levelInvariant g'"
proof -
  consider (menu) "isMainMenu g" | (over) "\<not> isMainMenu g" "isGameOver g" | (play) "playing g"
    by (auto simp: playing_def)
  then show ?thesis
  proof cases
    case menu
    with assms(2) have "g' = g\<lparr>isMainMenu := False\<rparr> \<or> g' = g"
      by (auto simp: Update_def split: if_splits)
    with assms(1) show ?thesis by (auto simp: levelInvariant_def poolWithin_def)
  next
    case over
    with assms(2) have "g' = ResetGame (g\<lparr>isMainMenu := True\<rparr>) \<or> g' = g"
      by (auto simp: Update_def split: if_splits)
    moreover have "levelInvariant (ResetGame (g\<lparr>isMainMenu := True\<rparr>))"
      by (rule levelInvariant_ResetGame)
         (use assms(1) in \<open>simp_all add: levelInvariant_def poolWithin_def\<close>)
    ultimately show ?thesis using assms(1) by auto
  next
    case play
    with assms show ?thesis by (simp add: Update_playing levelInvariant_UpdateGame)
  qed
qed

lemma healthSound_Update:
  assumes "levelInvariant g" and "healthSound g" and "Update inp g = Some g'"
  shows "healthSound g'"
proof -
  consider (menu) "isMainMenu g" | (over) "\<not> isMainMenu g" "isGameOver g"
    | (play) "\<not> isMainMenu g" "\<not> isGameOver g" by blast
  then show ?thesis
  proof cases
    case menu
    with assms(3) have "g' = g\<lparr>isMainMenu := False\<rparr> \<or> g' = g"
      by (auto simp: Update_def split: if_splits)
    with assms(2) show ?thesis by (auto simp: healthSound_def)
  next
    case over
    with assms(3) have "g' = ResetGame (g\<lparr>isMainMenu := True\<rparr>) \<or> g' = g"
      by (auto simp: Update_def split: if_splits)
    with assms(2) show ?thesis by (auto simp: healthSound_ResetGame)
  next
    case play
    with assms(3) have "UpdateGame inp g = Some g'" by (simp add: Update_def)
    moreover from assms(1) have "poolWithin {5, 10} g" by (simp add: levelInvariant_def)
    ultimately show ?thesis using assms(2) by (rule healthSound_tick)
  qed
qed

lemma reachable_levelInvariant: "reachable g \<Longrightarrow> levelInvariant g"
  by (induction rule: reachable.induct) (auto intro: levelInvariant_Game_new levelInvariant_Update)

lemma reachable_healthSound: "reachable g \<Longrightarrow> healthSound g"
proof (induction rule: reachable.induct)
  case (start seed)
  show ?case unfolding Game_new_def by (rule healthSound_ResetGame)
next
  case (frame g inp g')
  from frame.hyps(1) have "levelInvariant g" by (rule reachable_levelInvariant)
  then show ?case using frame.IH frame.hyps(2) by (rule healthSound_Update)
qed

lemma tick_rooms:
  assumes "UpdateGame inp g = Some g'"
  shows "rooms g' = rooms (BeforeTransition inp g)"
    and "i < length (rooms g) \<Longrightarrow> i \<noteq> nat (currentRoom g) \<Longrightarrow> rooms g' ! i = rooms g ! i"
    and "rooms g' ! nat (currentRoom g) = theRoom (BeforeTransition inp g)"
proof -
  let ?b = "BeforeTransition inp g"
  from assms have g': "g' = CheckWinLose (RoomTransition ?b)" by (simp add: UpdateGame_Some)
  note s = blockStep_BeforeTransition_UNIV [of g inp, unfolded blockStep_def]
  show r: "rooms g' = rooms ?b" by (simp add: g')
  show "rooms g' ! i = rooms g ! i" if "i < length (rooms g)" "i \<noteq> nat (currentRoom g)"
    using s that by (simp add: r)
  from s have "currentRoom ?b = currentRoom g" by blast
  then show "rooms g' ! nat (currentRoom g) = theRoom ?b" by (simp add: r theRoom_def)
qed

lemma tick_cleared:
  assumes u: "UpdateGame inp g = Some g'" and i: "i < length (rooms g)"
    and c: "cleared (rooms g ! i)" and a: "\<forall>e\<in>set (enemies (rooms g ! i)). \<not> active e"
  shows "cleared (rooms g' ! i) \<and> (\<forall>e\<in>set (enemies (rooms g' ! i)). \<not> active e)"
proof (cases "i = nat (currentRoom g)")
  case False
  with tick_rooms(2) [OF u i] c a show ?thesis by simp
next
  case True
  from u have v: "roomIndexValid g" by (simp add: UpdateGame_Some)
  from tick_step(3) [OF u i] have d: "list_all2 (damaged UNIV) (enemies (rooms g ! i)) (enemies (rooms g' ! i))"
    by (simp add: roomStep_def)
  have n: "\<forall>e\<in>set (enemies (rooms g' ! i)). \<not> active e"
  proof
    fix e' assume "e' \<in> set (enemies (rooms g' ! i))"
    then obtain k where k: "k < length (enemies (rooms g' ! i))" "e' = enemies (rooms g' ! i) ! k"
      by (auto simp: in_set_conv_nth)
    with d have "damaged UNIV (enemies (rooms g ! i) ! k) e'" and "k < length (enemies (rooms g ! i))"
      by (simp_all add: list_all2_conv_all_nth)
    with a show "\<not> active e'" using damaged_active nth_mem by blast
  qed
  have "rooms g' ! i = theRoom (BeforeTransition inp g)"
    using tick_rooms(3) [OF u] True by simp
  with cleared_BeforeTransition [OF v, of inp] n show ?thesis by simp
qed

lemma list_all2_damaged_active:
  "list_all2 (damaged UNIV) es es' \<Longrightarrow> list_all2 (\<lambda>e e'. active e' \<longrightarrow> active e) es es'"
  by (erule list_all2_mono) (blast intro: damaged_active)

lemma session_rooms:
  assumes "session g g'"
  shows "length (rooms g') = length (rooms g)
    \<and> (\<forall>i<length (rooms g). list_all2 (damaged UNIV) (enemies (rooms g ! i)) (enemies (rooms g' ! i)))"
  using assms
proof (induction rule: session.induct)
  case (session_start g) then show ?case by simp
next
  case (session_tick g g' inp g'')
  then have u: "UpdateGame inp g' = Some g''" by (simp add: Update_playing)
  from tick_step(2) [OF u] session_tick.IH have l: "length (rooms g'') = length (rooms g)" by simp
  have "list_all2 (damaged UNIV) (enemies (rooms g ! i)) (enemies (rooms g'' ! i))"
    if "i < length (rooms g)" for i
  proof -
    from that session_tick.IH have 1: "list_all2 (damaged UNIV) (enemies (rooms g ! i)) (enemies (rooms g' ! i))"
      and "i < length (rooms g')" by simp_all
    from tick_step(3) [OF u this(2)]
    have "list_all2 (damaged UNIV) (enemies (rooms g' ! i)) (enemies (rooms g'' ! i))"
      by (simp add: roomStep_def)
    with 1 show ?thesis by (rule list_all2_damaged_trans)
  qed
  with l show ?case by simp
qed

lemma session_cleared:
  assumes "session g g'" and "i < length (rooms g)"
    and "cleared (rooms g ! i)" and "\<forall>e\<in>set (enemies (rooms g ! i)). \<not> active e"
  shows "cleared (rooms g' ! i) \<and> (\<forall>e\<in>set (enemies (rooms g' ! i)). \<not> active e)"
  using assms
proof (induction rule: session.induct)
  case (session_start g) then show ?case by simp
next
  case (session_tick g g' inp g'')
  then have u: "UpdateGame inp g' = Some g''" by (simp add: Update_playing)
  from session_rooms [OF session_tick.hyps(1)] session_tick.prems(1)
  have i: "i < length (rooms g')" by simp
  from session_tick.IH session_tick.prems
  have "cleared (rooms g' ! i)" "\<forall>e\<in>set (enemies (rooms g' ! i)). \<not> active e" by simp_all
  with tick_cleared [OF u i] show ?case by simp
qed

lemma createRoom_enemies:
  assumes "createRoom i gen = (r, gen')" and "i \<noteq> 4"
  shows "enemies r \<noteq> [] \<and> (\<forall>e\<in>set (enemies r). active e \<and> \<not> aggro e)"
proof -
  obtain n g1 where u: "uniform_int 3 6 gen = (n, g1)" by (cases "uniform_int 3 6 gen")
  then have n: "3 \<le> n" by (auto simp: uniform_int_def)
  from assms u have a: "addEnemies (nat n) i (Room_new (real i * 800) 0 800 600 False) g1 = (r, gen')"
    by (simp add: createRoom_def Let_def)
  from addEnemies_frame [OF a] have "length (enemies r) = nat n"
    and "\<forall>e\<in>set (enemies r). active e \<and> \<not> aggro e"
    by (simp_all add: Room_new_def)
  with n show ?thesis by auto
qed

lemma createRooms_first:
  "createRooms (i # is) [] gen = (rs, gen') \<Longrightarrow> \<exists>g1. createRoom i gen = (rs ! 0, g1)"
proof -
  assume a: "createRooms (i # is) [] gen = (rs, gen')"
  obtain r g1 where c: "createRoom i gen = (r, g1)" by (cases "createRoom i gen")
  with a have "createRooms is [r] g1 = (rs, gen')" by simp
  from createRooms_frame [OF this] have "rs ! 0 = r" by simp
  with c show ?thesis by blast
qed

lemma Game_new_fields:
  "isMainMenu (Game_new seed)" "\<not> isGameOver (Game_new seed)" "currentRoom (Game_new seed) = 0"
  "player (Game_new seed) = Player_new 400 300"
  by (simp_all add: Game_new_def ResetGame_def Let_def split: prod.splits)

lemma Game_new_first_room:
  "enemies (rooms (Game_new seed) ! 0) \<noteq> []
   \<and> (\<forall>e\<in>set (enemies (rooms (Game_new seed) ! 0)). active e \<and> \<not> aggro e)"
proof -
  obtain rs gen' where c: "createRooms [0, 1, 2, 3, 4] [] seed = (rs, gen')"
    by (cases "createRooms [0, 1, 2, 3, 4] [] seed")
  then have r: "rooms (Game_new seed) = rs" by (simp add: Game_new_def ResetGame_def Let_def)
  from createRooms_first [OF c] obtain g1 where "createRoom 0 seed = (rs ! 0, g1)" by blast
  from createRoom_enemies [OF this] show ?thesis by (simp add: r)
qed

lemma projectilesLoop_idle:
  "\<forall>p\<in>set ps. \<not> active p \<Longrightarrow> projectilesLoop dt ps room pl = (ps, room, pl)"
  by (induction ps) simp_all

lemma enemiesShoot_idle:
  "\<forall>e\<in>set es. \<not> aggro e \<Longrightarrow> enemiesShoot es g = (es, g)"
  by (induction es) (simp_all add: Enemy_CanShoot_def)

lemma setRoom_theRoom: "setRoom (theRoom g) g = g"
  by (simp add: setRoom_def theRoom_def)

lemma UpdateProjectiles_idle:
  "\<forall>p\<in>set (projectiles g). \<not> active p \<Longrightarrow> UpdateProjectiles dt g = g"
  by (simp add: UpdateProjectiles_def projectilesLoop_idle setRoom_def theRoom_def)

lemma EnemyShooting_idle:
  "\<forall>e\<in>set (enemies (theRoom g)). \<not> aggro e \<Longrightarrow> EnemyShooting g = g"
  by (simp add: EnemyShooting_def enemiesShoot_idle setRoom_def theRoom_def)

lemma UpdateCurrentRoom_player [simp]: "player (UpdateCurrentRoom inp g) = player g"
  by (simp add: UpdateCurrentRoom_def setRoom_def split: prod.splits)

lemma UpdateCurrentRoom_active:
  assumes "roomIndexValid g"
  shows "map active (enemies (theRoom (UpdateCurrentRoom inp g))) = map active (enemies (theRoom g))"
proof -
  obtain r' clk' gen' where u: "Room_Update (frameTime inp) (player g) (theRoom g) (clock inp, rng g) = (r', (clk', gen'))"
    by (cases "Room_Update (frameTime inp) (player g) (theRoom g) (clock inp, rng g)") auto
  then have e: "UpdateCurrentRoom inp g = setRoom r' (g\<lparr>rng := gen'\<rparr>)"
    by (simp add: UpdateCurrentRoom_def)
  from assms have "roomIndexValid (g\<lparr>rng := gen'\<rparr>)" by (simp add: roomIndexValid_def)
  then have "theRoom (UpdateCurrentRoom inp g) = r'" unfolding e by (rule theRoom_setRoom)
  with Room_Update_step(3) [OF u] show ?thesis by simp
qed

lemma KeepPlayerInside_frame [simp]:
  "rooms (KeepPlayerInside g) = rooms g" "projectiles (KeepPlayerInside g) = projectiles g"
  "currentRoom (KeepPlayerInside g) = currentRoom g"
  by (simp_all add: KeepPlayerInside_def Let_def)

lemma BeforeTransition_idle:
  assumes "\<not> keySPACE inp" and "\<forall>p\<in>set (projectiles g). \<not> active p"
    and "\<forall>e\<in>set (enemies (theRoom g)). \<not> aggro e"
  shows "BeforeTransition inp g =
           UpdateCurrentRoom inp (KeepPlayerInside (g\<lparr>player := Player_Update inp (player g)\<rparr>))"
proof -
  let ?g2 = "KeepPlayerInside (g\<lparr>player := Player_Update inp (player g)\<rparr>)"
  have t: "theRoom ?g2 = theRoom g" by (simp add: theRoom_def)
  have 1: "PlayerShooting inp ?g2 = ?g2" using assms(1) by (simp add: PlayerShooting_def)
  have 2: "EnemyShooting ?g2 = ?g2" by (rule EnemyShooting_idle) (use assms(3) t in simp)
  have 3: "UpdateProjectiles (frameTime inp) ?g2 = ?g2"
    by (rule UpdateProjectiles_idle) (use assms(2) in simp)
  show ?thesis by (simp add: BeforeTransition_def 1 2 3)
qed

lemma theRoom_player_update [simp]: "theRoom (g\<lparr>player := p\<rparr>) = theRoom g"
  by (simp add: theRoom_def)

lemma levelInvariant_geometry:
  "levelInvariant g \<Longrightarrow> i < 5 \<Longrightarrow>
   Room.x (rooms g ! i) = real i * 800 \<and> width (rooms g ! i) = 800"
  by (simp add: levelInvariant_def)

lemma startedGame_reachable: "reachable startedGame"
proof -
  have "Update enterInput (Game_new (\<lambda>n. 0)) = Some startedGame"
    by (simp add: Update_def Game_new_fields enterInput_def quietInput_def startedGame_def)
  with reachable.start show ?thesis by (rule reachable.frame)
qed

lemma startedGame_playing: "playing startedGame"
  by (simp add: playing_def startedGame_def Game_new_fields)

lemma startedGame_fields:
  "currentRoom startedGame = 0" "length (rooms startedGame) = 5"
  "Room.x (theRoom startedGame) = 0" "width (theRoom startedGame) = 800"
  "player startedGame = Player_new 400 300"
proof -
  from startedGame_reachable have i: "levelInvariant startedGame" by (rule reachable_levelInvariant)
  show c: "currentRoom startedGame = 0" by (simp add: startedGame_def Game_new_fields)
  show "length (rooms startedGame) = 5" using i by (simp add: levelInvariant_def)
  from levelInvariant_geometry [OF i, of 0]
  have "Room.x (rooms startedGame ! 0) = 0 \<and> width (rooms startedGame ! 0) = 800" by simp
  then show "Room.x (theRoom startedGame) = 0" "width (theRoom startedGame) = 800"
    by (simp_all add: theRoom_def c)
  show "player startedGame = Player_new 400 300" by (simp add: startedGame_def Game_new_fields)
qed

lemma startedGame_holdRight:
  "Entity.x (player (BeforeTransition holdRight startedGame)) = 785"
  "\<not> cleared (theRoom (BeforeTransition holdRight startedGame))"
proof -
  let ?g1 = "startedGame\<lparr>player := Player_Update holdRight (player startedGame)\<rparr>"
  let ?g2 = "KeepPlayerInside ?g1"
  have r: "rooms startedGame = rooms (Game_new (\<lambda>n. 0))"
    "projectiles startedGame = projectiles (Game_new (\<lambda>n. 0))"
    by (simp_all add: startedGame_def)
  have t: "theRoom startedGame = rooms (Game_new (\<lambda>n. 0)) ! 0"
    by (simp add: theRoom_def startedGame_fields r)
  note fr = Game_new_first_room [of "\<lambda>n. 0"]
  have b: "BeforeTransition holdRight startedGame = UpdateCurrentRoom holdRight ?g2"
  proof (rule BeforeTransition_idle)
    show "\<not> keySPACE holdRight" by (simp add: holdRight_def quietInput_def)
    show "\<forall>p\<in>set (projectiles startedGame). \<not> active p"
      by (simp add: r Game_new_projectiles Projectile_new_def)
    show "\<forall>e\<in>set (enemies (theRoom startedGame)). \<not> aggro e" using fr by (simp add: t)
  qed
  have p: "Entity.x (Player_Update holdRight (Player_new 400 300)) = 800"
    by (simp add: Player_Update_def holdRight_def quietInput_def Player_new_def Let_def
          PLAYER_SPEED_def)
  have q: "radius (Player_new 400 300) = 15" by (simp add: Player_new_def)
  have t1: "theRoom ?g1 = theRoom startedGame" by (simp add: theRoom_def)
  have "Entity.x (player ?g2) = 785"
    by (simp add: KeepPlayerInside_def Let_def startedGame_fields p q)
  then show "Entity.x (player (BeforeTransition holdRight startedGame)) = 785" by (simp add: b)
  have v: "roomIndexValid ?g2" by (simp add: roomIndexValid_def startedGame_fields)
  have t2: "theRoom ?g2 = theRoom startedGame" by (simp add: theRoom_def)
  from UpdateCurrentRoom_active [OF v, of holdRight]
  have m: "map active (enemies (theRoom (BeforeTransition holdRight startedGame)))
             = map active (enemies (theRoom startedGame))" by (simp add: b t2)
  from fr obtain e where "e \<in> set (enemies (theRoom startedGame))" "active e"
    unfolding t by (cases "enemies (rooms (Game_new (\<lambda>n. 0)) ! 0)") auto
  then have "True \<in> set (map active (enemies (theRoom startedGame)))" by force
  with m have "True \<in> set (map active (enemies (theRoom (BeforeTransition holdRight startedGame))))"
    by simp
  then have "\<exists>e\<in>set (enemies (theRoom (BeforeTransition holdRight startedGame))). active e"
    by auto
  moreover have "roomIndexValid startedGame" by (simp add: roomIndexValid_def startedGame_fields)
  ultimately show "\<not> cleared (theRoom (BeforeTransition holdRight startedGame))"
    using cleared_BeforeTransition [of startedGame holdRight] by blast
qed

section \<open>The claims\<close>

text \<open>
  Claim C1. In a Playing tick after which the player's health is 0 or less, the game is
  over, the menu flag is still off, and the game-over screen shows the defeat headline.
  This holds for every such tick, so also when the last room is flagged as cleared in
  the same tick: the witness is a tick in which the boss and the player die together.
\<close>

theorem defeat_takes_priority:
  assumes "playing g" and "Update inp g = Some g'" and "health (player g') \<le> 0"
  shows "isGameOver g' \<and> \<not> isMainMenu g' \<and> Draw g' = GameOverScreen ''GAME OVER - YOU DIED!''"
proof -
  let ?h = "RoomTransition (BeforeTransition inp g)"
  from assms(1,2) have g': "g' = CheckWinLose ?h"
    by (simp add: Update_playing UpdateGame_Some)
  with assms(3) have "health (player ?h) \<le> 0" by simp
  then have over: "isGameOver g'" unfolding g' by (rule CheckWinLose_defeat)
  have "isMainMenu (BeforeTransition inp g) = isMainMenu g"
    using blockStep_BeforeTransition_UNIV [of g inp] by (simp add: blockStep_def)
  with assms(1) have menu: "\<not> isMainMenu g'" by (simp add: g' playing_def)
  from over menu assms(3) show ?thesis by (simp add: Draw_def DrawGameOver_def)
qed

theorem defeat_takes_priority_witness:
  "playing lastStand \<and> Update quietInput lastStand = Some lastStandOver
   \<and> health (player lastStand) = 5 \<and> health (player lastStandOver) \<le> 0
   \<and> size_t (currentRoom lastStandOver) = size_t (int (length (rooms lastStandOver)) - 1)
   \<and> cleared (theRoom lastStandOver)
   \<and> isGameOver lastStandOver \<and> \<not> isMainMenu lastStandOver
   \<and> Draw lastStandOver = GameOverScreen ''GAME OVER - YOU DIED!''"
proof -
  have p: "playing lastStand" by (simp add: playing_def lastStand_def)
  have u: "Update quietInput lastStand = Some lastStandOver"
    using p by (simp add: Update_playing lastStand_tick)
  have h: "health (player lastStandOver) \<le> 0"
    by (simp add: lastStandOver_def lastStandAfter_def)
  have "health (player lastStand) = 5" by (simp add: lastStand_def)
  with defeat_takes_priority [OF p u h] p u h lastStandOver_victory show ?thesis by simp
qed

text \<open>
  Claim C2. Let slot \<open>i\<close> be the first inactive slot of the pool. A fire request from
  \<open>(ox, oy)\<close> to the right by the player leaves in slot \<open>i\<close> an active projectile at
  \<open>(ox + 20, oy)\<close> with velocity \<open>(400, 0)\<close>, not an enemy projectile, with damage 10;
  a request downwards by an enemy leaves one with velocity \<open>(0, 400)\<close>, an enemy
  projectile, with damage 5. A default-constructed projectile is inactive.
\<close>

theorem fire_from_origin:
  assumes "i < length (projectiles g)" and "\<not> active (projectiles g ! i)"
    and "\<forall>j<i. active (projectiles g ! j)"
  shows "active (projectiles (FireProjectile ox oy RIGHT False g) ! i)
     \<and> Entity.x (projectiles (FireProjectile ox oy RIGHT False g) ! i) = ox + 20
     \<and> Entity.y (projectiles (FireProjectile ox oy RIGHT False g) ! i) = oy
     \<and> Projectile.speedX (projectiles (FireProjectile ox oy RIGHT False g) ! i) = 400
     \<and> Projectile.speedY (projectiles (FireProjectile ox oy RIGHT False g) ! i) = 0
     \<and> isEnemyProjectile (projectiles (FireProjectile ox oy RIGHT False g) ! i) = False
     \<and> damage (projectiles (FireProjectile ox oy RIGHT False g) ! i) = 10
     \<and> active (projectiles (FireProjectile ox oy DOWN True g) ! i)
     \<and> Projectile.speedX (projectiles (FireProjectile ox oy DOWN True g) ! i) = 0
     \<and> Projectile.speedY (projectiles (FireProjectile ox oy DOWN True g) ! i) = 400
     \<and> isEnemyProjectile (projectiles (FireProjectile ox oy DOWN True g) ! i) = True
     \<and> damage (projectiles (FireProjectile ox oy DOWN True g) ! i) = 5
     \<and> active Projectile_new = False"
proof -
  have r: "projectiles (FireProjectile ox oy RIGHT False g) ! i
             = Projectile_Fire (projectiles g ! i) (ox + 20) oy RIGHT False"
    using assms by (simp add: FireProjectile_def FirePool_first spawnX_def spawnY_def)
  have d: "projectiles (FireProjectile ox oy DOWN True g) ! i
             = Projectile_Fire (projectiles g ! i) ox (oy + 20) DOWN True"
    using assms by (simp add: FireProjectile_def FirePool_first spawnX_def spawnY_def)
  show ?thesis unfolding r d
    by (simp add: Projectile_Fire_RIGHT_player Projectile_Fire_DOWN_enemy Projectile_new_def)
qed

theorem fire_from_origin_witness:
  "0 < length (projectiles (Game_new (\<lambda>n. 0)))
   \<and> \<not> active (projectiles (Game_new (\<lambda>n. 0)) ! 0)
   \<and> active (projectiles (FireProjectile 100 100 RIGHT False (Game_new (\<lambda>n. 0))) ! 0)
   \<and> Entity.x (projectiles (FireProjectile 100 100 RIGHT False (Game_new (\<lambda>n. 0))) ! 0) = 120
   \<and> Entity.y (projectiles (FireProjectile 100 100 RIGHT False (Game_new (\<lambda>n. 0))) ! 0) = 100
   \<and> Projectile.speedX (projectiles (FireProjectile 100 100 RIGHT False (Game_new (\<lambda>n. 0))) ! 0) = 400
   \<and> damage (projectiles (FireProjectile 100 100 RIGHT False (Game_new (\<lambda>n. 0))) ! 0) = 10
   \<and> Projectile.speedY (projectiles (FireProjectile 100 100 DOWN True (Game_new (\<lambda>n. 0))) ! 0) = 400
   \<and> damage (projectiles (FireProjectile 100 100 DOWN True (Game_new (\<lambda>n. 0))) ! 0) = 5"
proof -
  have 1: "0 < length (projectiles (Game_new (\<lambda>n. 0)))" by (simp add: Game_new_projectiles)
  have 2: "\<not> active (projectiles (Game_new (\<lambda>n. 0)) ! 0)"
    by (simp add: Game_new_projectiles Projectile_new_def)
  have 3: "\<forall>j<0::nat. active (projectiles (Game_new (\<lambda>n. 0)) ! j)" by simp
  from fire_from_origin [OF 1 2 3, of 100 100] 1 2 show ?thesis by simp
qed

text \<open>
  Claim C3. In every state the program can reach, the cursor is a valid index into the
  rooms. A Playing tick in such a state returns a state, keeps the number of rooms, and
  leaves the cursor or adds one to it; it adds one exactly when, at the transition check
  of that tick, the current room is cleared, the player's x exceeds the room's right
  edge minus 50, and a next room exists. The cursor never exceeds the last index.
\<close>

theorem cursor_valid_and_advances_by_one:
  assumes "reachable g"
  shows "0 \<le> currentRoom g \<and> currentRoom g < int (length (rooms g))
    \<and> (playing g \<longrightarrow>
         (\<exists>g'. Update inp g = Some g' \<and> length (rooms g') = length (rooms g)
            \<and> (currentRoom g' = currentRoom g \<or> currentRoom g' = currentRoom g + 1)
            \<and> (currentRoom g' = currentRoom g + 1 \<longleftrightarrow>
                  cleared (theRoom (BeforeTransition inp g))
                  \<and> Entity.x (player (BeforeTransition inp g))
                      > Room.x (theRoom (BeforeTransition inp g))
                        + width (theRoom (BeforeTransition inp g)) - 50
                  \<and> currentRoom g + 1 < int (length (rooms g)))
            \<and> currentRoom g' \<le> int (length (rooms g')) - 1))"
proof -
  let ?b = "BeforeTransition inp g"
  let ?g' = "CheckWinLose (RoomTransition ?b)"
  from assms have inv: "levelInvariant g" by (rule reachable_levelInvariant)
  then have v: "roomIndexValid g" by (rule levelInvariant_valid)
  from inv have invb: "levelInvariant ?b" by (rule levelInvariant_BeforeTransition)
  then have vb: "roomIndexValid ?b" by (rule levelInvariant_valid)
  note s = blockStep_BeforeTransition_UNIV [of g inp, unfolded blockStep_def]
  from s have cb: "currentRoom ?b = currentRoom g" and lb: "length (rooms ?b) = length (rooms g)"
    by blast+
  from invb have l5: "length (rooms ?b) = 5" by (simp add: levelInvariant_def)
  have nx: "size_t (currentRoom ?b) < size_t (int (length (rooms ?b)) - 1)
         \<longleftrightarrow> currentRoom ?b + 1 < int (length (rooms ?b))"
    using vb by (rule next_room_exists) (simp add: l5)
  have cur: "currentRoom ?g' =
     (if cleared (theRoom ?b)
         \<and> Entity.x (player ?b) > Room.x (theRoom ?b) + width (theRoom ?b) - 50
         \<and> currentRoom g + 1 < int (length (rooms g))
      then currentRoom g + 1 else currentRoom g)"
    unfolding RoomTransition_cursor CheckWinLose_frame nx unfolding cb lb ..
  have "levelInvariant ?g'"
    using invb by (intro levelInvariant_CheckWinLose levelInvariant_RoomTransition)
  then have le: "currentRoom ?g' \<le> int (length (rooms ?g')) - 1"
    by (simp add: levelInvariant_def)
  have len: "length (rooms ?g') = length (rooms g)" using lb by simp
  have step: "Update inp g = Some ?g'" if "playing g"
    using that v by (simp add: Update_playing UpdateGame_def)
  have "\<exists>g'. Update inp g = Some g' \<and> length (rooms g') = length (rooms g)
            \<and> (currentRoom g' = currentRoom g \<or> currentRoom g' = currentRoom g + 1)
            \<and> (currentRoom g' = currentRoom g + 1 \<longleftrightarrow>
                  cleared (theRoom ?b)
                  \<and> Entity.x (player ?b) > Room.x (theRoom ?b) + width (theRoom ?b) - 50
                  \<and> currentRoom g + 1 < int (length (rooms g)))
            \<and> currentRoom g' \<le> int (length (rooms g')) - 1" if "playing g"
  proof (intro exI conjI)
    show "Update inp g = Some ?g'" using that by (rule step)
    show "length (rooms ?g') = length (rooms g)" by (rule len)
    show "currentRoom ?g' = currentRoom g \<or> currentRoom ?g' = currentRoom g + 1"
      unfolding cur by simp
    show "currentRoom ?g' = currentRoom g + 1 \<longleftrightarrow>
                  cleared (theRoom ?b)
                  \<and> Entity.x (player ?b) > Room.x (theRoom ?b) + width (theRoom ?b) - 50
                  \<and> currentRoom g + 1 < int (length (rooms g))"
      unfolding cur by simp
    show "currentRoom ?g' \<le> int (length (rooms ?g')) - 1" by (rule le)
  qed
  moreover from v have "0 \<le> currentRoom g \<and> currentRoom g < int (length (rooms g))"
    by (simp add: roomIndexValid_def)
  ultimately show ?thesis by blast
qed

theorem cursor_valid_and_advances_by_one_witness:
  "reachable startedGame \<and> playing startedGame \<and> currentRoom startedGame = 0
   \<and> length (rooms startedGame) = 5
   \<and> (\<exists>g'. Update holdRight startedGame = Some g' \<and> currentRoom g' = 0 \<and> length (rooms g') = 5)"
proof -
  from cursor_valid_and_advances_by_one [OF startedGame_reachable, of holdRight] startedGame_playing
  obtain g' where u: "Update holdRight startedGame = Some g'"
    and l: "length (rooms g') = length (rooms startedGame)"
    and c: "currentRoom g' = currentRoom startedGame \<or> currentRoom g' = currentRoom startedGame + 1"
    and a: "currentRoom g' = currentRoom startedGame + 1 \<longleftrightarrow>
              cleared (theRoom (BeforeTransition holdRight startedGame))
              \<and> Entity.x (player (BeforeTransition holdRight startedGame))
                  > Room.x (theRoom (BeforeTransition holdRight startedGame))
                    + width (theRoom (BeforeTransition holdRight startedGame)) - 50
              \<and> currentRoom startedGame + 1 < int (length (rooms startedGame))"
    by blast
  from a startedGame_holdRight(2) have "currentRoom g' \<noteq> currentRoom startedGame + 1" by blast
  with c have "currentRoom g' = 0" by (simp add: startedGame_fields)
  with u l startedGame_reachable startedGame_playing show ?thesis
    by (simp add: startedGame_fields)
qed

text \<open>
  Claim C4. If slot \<open>i\<close> is the first inactive slot, a fire request fires exactly that
  slot and changes nothing else in the game; if every slot is active, the request
  leaves the whole game unchanged. A request never changes the size of the pool, and
  in every reachable state the pool has 100 slots.
\<close>

theorem fire_request_first_free_slot:
  "(i < length (projectiles g) \<and> \<not> active (projectiles g ! i)
      \<and> (\<forall>j<i. active (projectiles g ! j)) \<longrightarrow>
      FireProjectile sx sy d f g =
        g\<lparr>projectiles := (projectiles g)
             [i := Projectile_Fire (projectiles g ! i) (spawnX sx d) (spawnY sy d) d f]\<rparr>
      \<and> active (projectiles (FireProjectile sx sy d f g) ! i)
      \<and> (\<forall>j<length (projectiles g). j \<noteq> i \<longrightarrow>
            projectiles (FireProjectile sx sy d f g) ! j = projectiles g ! j))
   \<and> ((\<forall>p\<in>set (projectiles g). active p) \<longrightarrow> FireProjectile sx sy d f g = g)
   \<and> length (projectiles (FireProjectile sx sy d f g)) = length (projectiles g)
   \<and> (reachable g \<longrightarrow> length (projectiles g) = 100)"
proof -
  have "FireProjectile sx sy d f g = g" if "\<forall>p\<in>set (projectiles g). active p"
    using that by (simp add: FireProjectile_def FirePool_full)
  moreover have "FireProjectile sx sy d f g =
        g\<lparr>projectiles := (projectiles g)
             [i := Projectile_Fire (projectiles g ! i) (spawnX sx d) (spawnY sy d) d f]\<rparr>
      \<and> active (projectiles (FireProjectile sx sy d f g) ! i)
      \<and> (\<forall>j<length (projectiles g). j \<noteq> i \<longrightarrow>
            projectiles (FireProjectile sx sy d f g) ! j = projectiles g ! j)"
    if "i < length (projectiles g)" "\<not> active (projectiles g ! i)" "\<forall>j<i. active (projectiles g ! j)"
    using that by (simp add: FireProjectile_def FirePool_first)
  moreover have "length (projectiles (FireProjectile sx sy d f g)) = length (projectiles g)"
    by (simp add: FireProjectile_def)
  moreover have "length (projectiles g) = 100" if "reachable g"
    using reachable_levelInvariant [OF that] by (simp add: levelInvariant_def)
  ultimately show ?thesis by blast
qed

theorem fire_request_first_free_slot_witness:
  "reachable (Game_new (\<lambda>n. 0)) \<and> length (projectiles (Game_new (\<lambda>n. 0))) = 100
   \<and> \<not> active (projectiles (Game_new (\<lambda>n. 0)) ! 0)
   \<and> projectiles (FireProjectile 100 100 UP True (Game_new (\<lambda>n. 0))) =
        Projectile_Fire Projectile_new 100 80 UP True # replicate 99 Projectile_new
   \<and> list_all active (projectiles lastStand)
   \<and> FireProjectile 100 100 UP True lastStand = lastStand"
proof -
  let ?g = "Game_new (\<lambda>n. 0)"
  have 1: "0 < length (projectiles ?g)" by (simp add: Game_new_projectiles)
  have 2: "\<not> active (projectiles ?g ! 0)" by (simp add: Game_new_projectiles Projectile_new_def)
  have 3: "\<forall>j<0::nat. active (projectiles ?g ! j)" by simp
  have 4: "\<forall>p\<in>set (projectiles lastStand). active p" by (simp add: lastStand_def)
  have r: "replicate 100 Projectile_new = Projectile_new # replicate 99 Projectile_new"
    by (simp add: replicate_Suc [symmetric] del: replicate_Suc)
  have 5: "reachable ?g" by (rule reachable.start)
  with fire_request_first_free_slot [of 0 ?g 100 100 UP True]
  have 6: "length (projectiles ?g) = 100" by blast
  from fire_request_first_free_slot [of 0 ?g 100 100 UP True] 1 2 3
  have "FireProjectile 100 100 UP True ?g =
          ?g\<lparr>projectiles := (projectiles ?g)[0 := Projectile_Fire (projectiles ?g ! 0)
                (spawnX 100 UP) (spawnY 100 UP) UP True]\<rparr>" by blast
  then have "projectiles (FireProjectile 100 100 UP True ?g) =
        Projectile_Fire Projectile_new 100 80 UP True # replicate 99 Projectile_new"
    by (simp add: Game_new_projectiles r spawnX_def spawnY_def)
  moreover from fire_request_first_free_slot [of 0 lastStand 100 100 UP True] 4
  have "FireProjectile 100 100 UP True lastStand = lastStand" by blast
  ultimately show ?thesis using 2 4 5 6 by (simp add: list_all_iff)
qed

text \<open>
  Claim C5, amended. Whenever the subtraction \<open>health - amount\<close> does not overflow the
  32-bit \<open>int\<close>: \<open>TakeDamage\<close> with an amount of at least the health sets the health to 0
  and deactivates; with a smaller amount it subtracts the amount and leaves the active
  flag as it was. For every amount, the health afterwards is not negative, no field
  other than health and active changes, no entity is activated, and an active entity is
  deactivated only with health 0. In a tick of the Playing mode from a state whose pool
  carries the damages 5 and 10 and whose healths are non-negative 32-bit values, the
  player and every enemy change health and activity as by \<open>TakeDamage\<close> calls with
  amounts 5 or 10 only: the health does not grow, nothing is activated, and what is
  deactivated has health 0. Every reachable state is such a state.
\<close>

theorem TakeDamage_contract:
  "(- (2 ^ 31) \<le> health e - amount \<and> health e - amount < 2 ^ 31 \<longrightarrow>
        (amount \<ge> health e \<longrightarrow> health (TakeDamage e amount) = 0 \<and> \<not> active (TakeDamage e amount))
      \<and> (amount < health e \<longrightarrow> health (TakeDamage e amount) = health e - amount
             \<and> active (TakeDamage e amount) = active e))
   \<and> 0 \<le> health (TakeDamage e amount)
   \<and> (active (TakeDamage e amount) \<longrightarrow> active e)
   \<and> (active e \<and> \<not> active (TakeDamage e amount) \<longrightarrow> health (TakeDamage e amount) = 0)
   \<and> TakeDamage e amount =
        e\<lparr>health := health (TakeDamage e amount), active := active (TakeDamage e amount)\<rparr>
   \<and> (poolWithin {5, 10} g \<and> healthSound g \<and> UpdateGame inp g = Some g' \<longrightarrow>
         hurt (player g) (player g')
         \<and> (\<forall>i<length (rooms g). list_all2 hurt (enemies (rooms g ! i)) (enemies (rooms g' ! i))))
   \<and> (reachable g \<longrightarrow> poolWithin {5, 10} g \<and> healthSound g)"
proof -
  have "hurt (player g) (player g')
         \<and> (\<forall>i<length (rooms g). list_all2 hurt (enemies (rooms g ! i)) (enemies (rooms g' ! i)))"
    if "poolWithin {5, 10} g" "healthSound g" "UpdateGame inp g = Some g'"
    using tick_hurt [OF that(3,1,2)] by blast
  moreover have "poolWithin {5, 10} g \<and> healthSound g" if "reachable g"
    using reachable_levelInvariant [OF that] reachable_healthSound [OF that]
    by (simp add: levelInvariant_def)
  moreover have "TakeDamage e amount =
        e\<lparr>health := health (TakeDamage e amount), active := active (TakeDamage e amount)\<rparr>"
    by (simp add: TakeDamage_eq)
  moreover have "0 \<le> health (TakeDamage e amount)" by (rule TakeDamage_nonneg)
  moreover have "active (TakeDamage e amount) \<longrightarrow> active e"
    by (simp add: TakeDamage_eq split: if_splits)
  moreover have "active e \<and> \<not> active (TakeDamage e amount) \<longrightarrow> health (TakeDamage e amount) = 0"
    by (simp add: TakeDamage_eq split: if_splits)
  moreover have "(amount \<ge> health e \<longrightarrow> health (TakeDamage e amount) = 0 \<and> \<not> active (TakeDamage e amount))
      \<and> (amount < health e \<longrightarrow> health (TakeDamage e amount) = health e - amount
             \<and> active (TakeDamage e amount) = active e)"
    if "- (2 ^ 31) \<le> health e - amount" "health e - amount < 2 ^ 31"
  proof -
    from that have "int32 (health e - amount) = health e - amount" by (rule int32_id)
    then show ?thesis by (simp add: TakeDamage_eq)
  qed
  ultimately show ?thesis by blast
qed

text \<open>
  The claim as stated fails in two ways. For an entity that is inactive before the
  call: a default projectile has health 1 and is inactive; after \<open>TakeDamage 0\<close> its
  health is \<open>1 - 0\<close> and it is still inactive. For an amount whose subtraction overflows:
  the amount \<open>-2147483648\<close> is smaller than the health 100 of a new player, and the call
  leaves the health 0 and the player inactive.
\<close>

theorem TakeDamage_inactive_counterexample:
  "(0::int) < health Projectile_new
   \<and> health (TakeDamage Projectile_new 0) = health Projectile_new - 0
   \<and> \<not> active (TakeDamage Projectile_new 0)
   \<and> - 2147483648 < health (Player_new 0 0)
   \<and> active (Player_new 0 0)
   \<and> health (TakeDamage (Player_new 0 0) (- 2147483648)) = 0
   \<and> \<not> active (TakeDamage (Player_new 0 0) (- 2147483648))"
  by (simp add: TakeDamage_def int32_def Projectile_new_def Player_new_def PLAYER_HEALTH_def)

theorem TakeDamage_contract_witness:
  "- (2 ^ 31) \<le> health (Player_new 0 0) - 100 \<and> health (Player_new 0 0) - 100 < 2 ^ 31
   \<and> - (2 ^ 31) \<le> health (Player_new 0 0) - 30 \<and> health (Player_new 0 0) - 30 < 2 ^ 31
   \<and> health (Player_new 0 0) \<le> 100
   \<and> health (TakeDamage (Player_new 0 0) 100) = 0 \<and> \<not> active (TakeDamage (Player_new 0 0) 100)
   \<and> 30 < health (Player_new 0 0)
   \<and> health (TakeDamage (Player_new 0 0) 30) = 70 \<and> active (TakeDamage (Player_new 0 0) 30)
   \<and> poolWithin {5, 10} lastStand \<and> healthSound lastStand
   \<and> UpdateGame quietInput lastStand = Some lastStandOver
   \<and> hurt (player lastStand) (player lastStandOver)
   \<and> health (player lastStand) = 5 \<and> active (player lastStand)
   \<and> health (player lastStandOver) = 0 \<and> \<not> active (player lastStandOver)
   \<and> list_all2 hurt (enemies (rooms lastStand ! 0)) (enemies (rooms lastStandOver ! 0))
   \<and> map health (enemies (rooms lastStand ! 0)) = [10]
   \<and> map active (enemies (rooms lastStand ! 0)) = [True]
   \<and> map health (enemies (rooms lastStandOver ! 0)) = [0]
   \<and> map active (enemies (rooms lastStandOver ! 0)) = [False]
   \<and> reachable (Game_new (\<lambda>n. 0))
   \<and> poolWithin {5, 10} (Game_new (\<lambda>n. 0)) \<and> healthSound (Game_new (\<lambda>n. 0))"
proof -
  have h: "health (Player_new 0 0) = 100" "active (Player_new 0 0)"
    by (simp_all add: Player_new_def PLAYER_HEALTH_def)
  have l: "length (rooms lastStand) = 1" by (simp add: lastStand_def)
  have p: "poolWithin {5, 10} lastStand"
    by (simp add: poolWithin_def lastStand_def Projectile_Fire_def Let_def)
  have s: "healthSound lastStand"
    by (simp add: healthSound_def lastStand_def lastBoss_def Player_new_def)
  have c: "health (player lastStand) = 5" "active (player lastStand)"
    "health (player lastStandOver) = 0" "\<not> active (player lastStandOver)"
    "map health (enemies (rooms lastStand ! 0)) = [10]"
    "map active (enemies (rooms lastStand ! 0)) = [True]"
    "map health (enemies (rooms lastStandOver ! 0)) = [0]"
    "map active (enemies (rooms lastStandOver ! 0)) = [False]"
    by (simp_all add: lastStand_def lastStandOver_def lastStandAfter_def lastBoss_def
        Player_new_def)
  from TakeDamage_contract [where e = "Player_new 0 0" and amount = 100 and g = lastStand
        and inp = quietInput and g' = lastStandOver] h lastStand_tick l p s
  have a: "health (TakeDamage (Player_new 0 0) 100) = 0 \<and> \<not> active (TakeDamage (Player_new 0 0) 100)
    \<and> hurt (player lastStand) (player lastStandOver)
    \<and> list_all2 hurt (enemies (rooms lastStand ! 0)) (enemies (rooms lastStandOver ! 0))"
    by simp
  from TakeDamage_contract [where e = "Player_new 0 0" and amount = 30
        and g = "Game_new (\<lambda>n. 0)"] h reachable.start [of "\<lambda>n. 0"]
  have b: "health (TakeDamage (Player_new 0 0) 30) = 70 \<and> active (TakeDamage (Player_new 0 0) 30)
    \<and> poolWithin {5, 10} (Game_new (\<lambda>n. 0)) \<and> healthSound (Game_new (\<lambda>n. 0))"
    by simp
  from a b c h p s lastStand_tick reachable.start [of "\<lambda>n. 0"] show ?thesis by simp
qed

text \<open>
  Claim C6. A Playing tick in a reachable state returns a state (the block is no error).
  If at the transition check the current room is not cleared and the player's x exceeds
  the room's right edge minus 50, the tick keeps the cursor and changes, of player, rooms
  and pool, only the player's x, which it sets to that boundary. At the end of every
  such tick, if the current room is flagged as not cleared, the player's x is at most
  that room's right edge minus 50.
\<close>

theorem exit_blocked_until_cleared:
  assumes "reachable g" and "playing g"
  shows "\<exists>g'. Update inp g = Some g'
    \<and> (\<not> cleared (theRoom (BeforeTransition inp g))
         \<and> Entity.x (player (BeforeTransition inp g))
             > Room.x (theRoom (BeforeTransition inp g))
               + width (theRoom (BeforeTransition inp g)) - 50
       \<longrightarrow> currentRoom g' = currentRoom g
           \<and> player g' = (player (BeforeTransition inp g))
                \<lparr>Entity.x := Room.x (theRoom g') + width (theRoom g') - 50\<rparr>
           \<and> rooms g' = rooms (BeforeTransition inp g)
           \<and> projectiles g' = projectiles (BeforeTransition inp g))
    \<and> (\<not> cleared (theRoom g')
       \<longrightarrow> Entity.x (player g') \<le> Room.x (theRoom g') + width (theRoom g') - 50)"
proof -
  let ?b = "BeforeTransition inp g"
  let ?t = "RoomTransition ?b"
  let ?g' = "CheckWinLose ?t"
  let ?edge = "Room.x (theRoom ?b) + width (theRoom ?b) - 50"
  from assms(1) have inv: "levelInvariant g" by (rule reachable_levelInvariant)
  then have v: "roomIndexValid g" by (rule levelInvariant_valid)
  from inv have invb: "levelInvariant ?b" by (rule levelInvariant_BeforeTransition)
  then have vb: "roomIndexValid ?b" by (rule levelInvariant_valid)
  from blockStep_BeforeTransition_UNIV [of g inp] have cb: "currentRoom ?b = currentRoom g"
    by (simp add: blockStep_def)
  from invb have l5: "length (rooms ?b) = 5" by (simp add: levelInvariant_def)
  have nx: "size_t (currentRoom ?b) < size_t (int (length (rooms ?b)) - 1)
         \<longleftrightarrow> currentRoom ?b + 1 < int (length (rooms ?b))"
    using vb by (rule next_room_exists) (simp add: l5)
  have step: "Update inp g = Some ?g'"
    using assms(2) v by (simp add: Update_playing UpdateGame_def)
  have blocked: "currentRoom ?g' = currentRoom g
           \<and> player ?g' = (player ?b)\<lparr>Entity.x := Room.x (theRoom ?g') + width (theRoom ?g') - 50\<rparr>
           \<and> rooms ?g' = rooms ?b \<and> projectiles ?g' = projectiles ?b"
    if "\<not> cleared (theRoom ?b)" "Entity.x (player ?b) > ?edge"
  proof -
    from that have t: "?t = ?b\<lparr>player := (player ?b)\<lparr>Entity.x := ?edge\<rparr>\<rparr>"
      by (simp add: RoomTransition_def Let_def)
    have "theRoom ?g' = theRoom ?b" unfolding t by (simp add: theRoom_def)
    then show ?thesis unfolding t by (simp add: cb)
  qed
  have bound: "Entity.x (player ?g') \<le> Room.x (theRoom ?g') + width (theRoom ?g') - 50"
    if nc: "\<not> cleared (theRoom ?g')"
  proof (cases "cleared (theRoom ?b) \<and> Entity.x (player ?b) > ?edge
      \<and> currentRoom ?b + 1 < int (length (rooms ?b))")
    case True
    then have c: "currentRoom ?t = currentRoom ?b + 1" by (simp add: RoomTransition_cursor nx)
    from True have px: "Entity.x (player ?t) = Room.x (rooms ?b ! nat (currentRoom ?b + 1)) + 50"
      by (simp add: RoomTransition_player_x nx)
    have tr: "theRoom ?t = rooms ?b ! nat (currentRoom ?b + 1)" by (simp add: theRoom_def c)
    from True vb l5 have "nat (currentRoom ?b + 1) < 5" unfolding roomIndexValid_def by arith
    with invb have "width (rooms ?b ! nat (currentRoom ?b + 1)) = 800"
      by (simp add: levelInvariant_def)
    then show ?thesis by (simp add: tr px)
  next
    case False
    then have c: "currentRoom ?t = currentRoom ?b" by (simp add: RoomTransition_cursor nx)
    then have tr: "theRoom ?t = theRoom ?b" by (simp add: theRoom_def)
    show ?thesis
    proof (cases "Entity.x (player ?b) > ?edge")
      case True
      with nc tr have "\<not> cleared (theRoom ?b)" by simp
      with True have "Entity.x (player ?t) = ?edge" by (simp add: RoomTransition_player_x)
      then show ?thesis by (simp add: tr)
    next
      case False
      then have "Entity.x (player ?t) = Entity.x (player ?b)" by (simp add: RoomTransition_player_x)
      with False show ?thesis by (simp add: tr)
    qed
  qed
  from step blocked bound show ?thesis by blast
qed

theorem exit_blocked_until_cleared_witness:
  "reachable startedGame \<and> playing startedGame
   \<and> Entity.x (player (BeforeTransition holdRight startedGame)) = 785
   \<and> (\<exists>g'. Update holdRight startedGame = Some g' \<and> currentRoom g' = 0
          \<and> \<not> cleared (theRoom g') \<and> Entity.x (player g') = 750)"
proof -
  let ?b = "BeforeTransition holdRight startedGame"
  from blockStep_BeforeTransition_UNIV [of startedGame holdRight]
  have s: "currentRoom ?b = 0" "roomStep UNIV (rooms startedGame ! 0) (rooms ?b ! 0)"
    by (simp_all add: blockStep_def startedGame_fields)
  then have t: "theRoom ?b = rooms ?b ! 0" by (simp add: theRoom_def)
  from s have geo: "Room.x (theRoom ?b) = 0" "width (theRoom ?b) = 800"
    using startedGame_fields(3,4) by (simp_all add: t roomStep_def theRoom_def startedGame_fields(1))
  from exit_blocked_until_cleared [OF startedGame_reachable startedGame_playing, of holdRight]
  obtain g' where u: "Update holdRight startedGame = Some g'"
    and k: "\<not> cleared (theRoom ?b) \<and> Entity.x (player ?b) > Room.x (theRoom ?b) + width (theRoom ?b) - 50
       \<longrightarrow> currentRoom g' = currentRoom startedGame
           \<and> player g' = (player ?b)\<lparr>Entity.x := Room.x (theRoom g') + width (theRoom g') - 50\<rparr>
           \<and> rooms g' = rooms ?b \<and> projectiles g' = projectiles ?b"
    by blast
  have "\<not> cleared (theRoom ?b) \<and> Entity.x (player ?b) > Room.x (theRoom ?b) + width (theRoom ?b) - 50"
    using startedGame_holdRight by (simp add: geo)
  with k have c: "currentRoom g' = 0" and r: "rooms g' = rooms ?b"
    and p: "player g' = (player ?b)\<lparr>Entity.x := Room.x (theRoom g') + width (theRoom g') - 50\<rparr>"
    by (simp_all add: startedGame_fields)
  from c r have tg: "theRoom g' = theRoom ?b" by (simp add: theRoom_def s)
  have "Entity.x (player g') = 750" by (subst p) (simp add: tg geo)
  with u c tg startedGame_holdRight startedGame_reachable startedGame_playing
  show ?thesis by auto
qed

text \<open>
  Claim C7. After \<open>Room::Update\<close> the flag \<open>cleared\<close> is true exactly when no enemy of the
  room is active, before as well as after the update (the update changes no active
  flag); so a room without enemies is cleared, and a room with an active enemy is not.
\<close>

theorem Room_Update_cleared:
  "cleared (fst (Room_Update dt pl r ev)) = (\<forall>e\<in>set (enemies (fst (Room_Update dt pl r ev))). \<not> active e)
   \<and> cleared (fst (Room_Update dt pl r ev)) = (\<forall>e\<in>set (enemies r). \<not> active e)
   \<and> (enemies r = [] \<longrightarrow> cleared (fst (Room_Update dt pl r ev)))
   \<and> ((\<exists>e\<in>set (enemies (fst (Room_Update dt pl r ev))). active e) \<longrightarrow> \<not> cleared (fst (Room_Update dt pl r ev)))"
proof -
  obtain r' ev' where u: "Room_Update dt pl r ev = (r', ev')" by (cases "Room_Update dt pl r ev")
  note s = Room_Update_step [OF u]
  have "(\<forall>e\<in>set (enemies r'). \<not> active e) = (\<forall>e\<in>set (enemies r). \<not> active e)"
    using checkCleared_map [OF s(3)] by (simp add: checkCleared_iff)
  with s(2) show ?thesis unfolding u by auto
qed

theorem Room_Update_cleared_witness:
  "enemies (Room_new 0 0 800 600 False) = []
   \<and> cleared (fst (Room_Update (1 / 10) (Player_new 400 300) (Room_new 0 0 800 600 False)
                    (\<lambda>n. 0, \<lambda>n. 0)))
   \<and> \<not> (\<exists>e\<in>set (enemies (theRoom lastStandAfter)). active e)
   \<and> cleared (fst (Room_Update (1 / 10) (Player_new 400 300) (theRoom lastStandAfter)
                    (\<lambda>n. 0, \<lambda>n. 0)))
   \<and> (\<exists>e\<in>set (enemies (fst (Room_Update (1 / 10) (Player_new 400 300) (theRoom lastStand)
                    (\<lambda>n. 0, \<lambda>n. 0)))). active e)
   \<and> \<not> cleared (fst (Room_Update (1 / 10) (Player_new 400 300) (theRoom lastStand)
                    (\<lambda>n. 0, \<lambda>n. 0)))"
proof -
  let ?u = "\<lambda>r. fst (Room_Update (1 / 10) (Player_new 400 300) r (\<lambda>n. 0, \<lambda>n. 0))"
  have e: "enemies (Room_new 0 0 800 600 False) = []" by (simp add: Room_new_def)
  have a: "\<forall>e\<in>set (enemies (theRoom lastStandAfter)). \<not> active e"
    by (simp add: theRoom_def lastStandAfter_def lastStand_def)
  have b: "\<not> (\<forall>e\<in>set (enemies (theRoom lastStand)). \<not> active e)"
    by (simp add: theRoom_def lastStand_def lastBoss_def)
  note t1 = Room_Update_cleared [of "1 / 10" "Player_new 400 300" "Room_new 0 0 800 600 False" "(\<lambda>n. 0, \<lambda>n. 0)"]
  note t2 = Room_Update_cleared [of "1 / 10" "Player_new 400 300" "theRoom lastStandAfter" "(\<lambda>n. 0, \<lambda>n. 0)"]
  note t3 = Room_Update_cleared [of "1 / 10" "Player_new 400 300" "theRoom lastStand" "(\<lambda>n. 0, \<lambda>n. 0)"]
  from t1 e have 1: "cleared (?u (Room_new 0 0 800 600 False))" by blast
  from t2 a have 2: "cleared (?u (theRoom lastStandAfter))" by blast
  from t3 b have 3: "\<not> cleared (?u (theRoom lastStand))" by blast
  with t3 have 4: "\<exists>e\<in>set (enemies (?u (theRoom lastStand))). active e" by blast
  from e a 1 2 3 4 show ?thesis by blast
qed




text \<open>
  Claim C9. When the room transition changes the cursor, it adds one to the cursor and
  sets the player's x to the new room's x plus 50, and changes nothing else: in
  particular the player's y, health, shoot cooldown and facing and the whole pool stay.
\<close>

theorem transition_changes_cursor_and_x_only:
  assumes "roomIndexValid g" and "currentRoom (RoomTransition g) \<noteq> currentRoom g"
  shows "RoomTransition g =
           g\<lparr>currentRoom := currentRoom g + 1,
             player := (player g)\<lparr>Entity.x := Room.x (rooms g ! nat (currentRoom g + 1)) + 50\<rparr>\<rparr>
         \<and> Entity.y (player (RoomTransition g)) = Entity.y (player g)
         \<and> health (player (RoomTransition g)) = health (player g)
         \<and> Player.shootCooldown (player (RoomTransition g)) = Player.shootCooldown (player g)
         \<and> facing (player (RoomTransition g)) = facing (player g)
         \<and> projectiles (RoomTransition g) = projectiles g"
proof -
  let ?adv = "cleared (theRoom g) \<and> Entity.x (player g) > Room.x (theRoom g) + width (theRoom g) - 50
              \<and> size_t (currentRoom g) < size_t (int (length (rooms g)) - 1)"
  have "?adv"
  proof (rule ccontr)
    assume "\<not> ?adv"
    then have "currentRoom (RoomTransition g) = currentRoom g"
      by (auto simp: RoomTransition_def Let_def)
    with assms(2) show False by simp
  qed
  then have "RoomTransition g =
           g\<lparr>currentRoom := currentRoom g + 1,
             player := (player g)\<lparr>Entity.x := Room.x (rooms g ! nat (currentRoom g + 1)) + 50\<rparr>\<rparr>"
    by (simp add: RoomTransition_def Let_def theRoom_def)
  then show ?thesis by simp
qed

theorem transition_changes_cursor_and_x_only_witness:
  "roomIndexValid exitReady \<and> currentRoom (RoomTransition exitReady) \<noteq> currentRoom exitReady
   \<and> currentRoom (RoomTransition exitReady) = 1
   \<and> Entity.x (player (RoomTransition exitReady)) = 850
   \<and> Entity.y (player (RoomTransition exitReady)) = 300
   \<and> health (player (RoomTransition exitReady)) = 40
   \<and> Player.shootCooldown (player (RoomTransition exitReady)) = 1 / 10
   \<and> facing (player (RoomTransition exitReady)) = UP
   \<and> projectiles (RoomTransition exitReady) = projectiles exitReady"
proof -
  have v: "roomIndexValid exitReady" by (simp add: roomIndexValid_def exitReady_def)
  have c: "currentRoom (RoomTransition exitReady) = 1"
    by (simp add: RoomTransition_def exitReady_def theRoom_def Room_new_def Player_new_def
          size_t_def Let_def)
  then have n: "currentRoom (RoomTransition exitReady) \<noteq> currentRoom exitReady"
    by (simp add: exitReady_def)
  have f: "Entity.y (player exitReady) = 300" "health (player exitReady) = 40"
    "Player.shootCooldown (player exitReady) = 1 / 10" "facing (player exitReady) = UP"
    "Room.x (rooms exitReady ! nat (currentRoom exitReady + 1)) = 800"
    by (simp_all add: exitReady_def Player_new_def Room_new_def)
  from transition_changes_cursor_and_x_only [OF v n] have "Entity.x (player (RoomTransition exitReady)) = 850"
    by (simp add: f)
  with transition_changes_cursor_and_x_only [OF v n] v n c f show ?thesis by simp
qed

text \<open>
  Claim C10. Over a Playing session no enemy that is inactive becomes active again, in
  any room; and a room that is flagged as cleared, in a reachable state or in any state
  where the flagged room has no active enemy (as it is when \<open>Room::Update\<close> has just set
  the flag), is still flagged as cleared and without an active enemy at the end of the
  session.
\<close>

theorem cleared_stays_cleared:
  assumes "session g g'" and "i < length (rooms g)"
  shows "list_all2 (\<lambda>e e'. active e' \<longrightarrow> active e) (enemies (rooms g ! i)) (enemies (rooms g' ! i))
    \<and> (cleared (rooms g ! i)
         \<and> (reachable g \<or> (\<forall>e\<in>set (enemies (rooms g ! i)). \<not> active e))
       \<longrightarrow> cleared (rooms g' ! i) \<and> (\<forall>e\<in>set (enemies (rooms g' ! i)). \<not> active e))"
proof -
  from session_rooms [OF assms(1)] assms(2)
  have 1: "list_all2 (\<lambda>e e'. active e' \<longrightarrow> active e) (enemies (rooms g ! i)) (enemies (rooms g' ! i))"
    by (simp add: list_all2_damaged_active)
  have 2: "cleared (rooms g' ! i) \<and> (\<forall>e\<in>set (enemies (rooms g' ! i)). \<not> active e)"
    if c: "cleared (rooms g ! i)"
      and r: "reachable g \<or> (\<forall>e\<in>set (enemies (rooms g ! i)). \<not> active e)"
  proof -
    have "\<forall>e\<in>set (enemies (rooms g ! i)). \<not> active e"
    proof (cases "reachable g")
      case True
      then have "levelInvariant g" by (rule reachable_levelInvariant)
      with assms(2) have "clearedSound (rooms g ! i)" by (simp add: levelInvariant_def)
      with c show ?thesis by (simp add: clearedSound_def)
    next
      case False with r show ?thesis by simp
    qed
    with assms c show ?thesis by (rule session_cleared)
  qed
  from 1 2 show ?thesis by blast
qed

theorem cleared_stays_cleared_witness:
  "session bossDown (CheckWinLose (RoomTransition (BeforeTransition quietInput bossDown)))
   \<and> 0 < length (rooms bossDown) \<and> cleared (rooms bossDown ! 0)
   \<and> enemies (rooms bossDown ! 0) = [lastBoss\<lparr>health := 0, active := False\<rparr>]
   \<and> \<not> (\<exists>e\<in>set (enemies (rooms bossDown ! 0)). active e)
   \<and> cleared (rooms (CheckWinLose (RoomTransition (BeforeTransition quietInput bossDown))) ! 0)
   \<and> length (enemies
         (rooms (CheckWinLose (RoomTransition (BeforeTransition quietInput bossDown))) ! 0)) = 1
   \<and> \<not> (\<exists>e\<in>set (enemies
         (rooms (CheckWinLose (RoomTransition (BeforeTransition quietInput bossDown))) ! 0)).
          active e)"
proof -
  let ?g' = "CheckWinLose (RoomTransition (BeforeTransition quietInput bossDown))"
  have p: "playing bossDown" by (simp add: playing_def bossDown_def)
  have v: "roomIndexValid bossDown" by (simp add: roomIndexValid_def bossDown_def)
  have "Update quietInput bossDown = Some ?g'"
    using p v by (simp add: Update_playing UpdateGame_def)
  with session_start p have s: "session bossDown ?g'" by (rule session_tick)
  have l: "0 < length (rooms bossDown)" by (simp add: bossDown_def)
  have c: "cleared (rooms bossDown ! 0)" by (simp add: bossDown_def)
  have r: "enemies (rooms bossDown ! 0) = [lastBoss\<lparr>health := 0, active := False\<rparr>]"
    by (simp add: bossDown_def)
  have n: "\<forall>e\<in>set (enemies (rooms bossDown ! 0)). \<not> active e" unfolding r by simp
  note t = cleared_stays_cleared [OF s l]
  from t c n have a: "cleared (rooms ?g' ! 0)"
    and b: "\<forall>e\<in>set (enemies (rooms ?g' ! 0)). \<not> active e" by blast+
  from t have "list_all2 (\<lambda>e e'. active e' \<longrightarrow> active e)
      (enemies (rooms bossDown ! 0)) (enemies (rooms ?g' ! 0))" by blast
  then have "length (enemies (rooms bossDown ! 0)) = length (enemies (rooms ?g' ! 0))"
    by (rule list_all2_lengthD)
  then have k: "length (enemies (rooms ?g' ! 0)) = 1" unfolding r by simp
  from s l c r n a b k show ?thesis by blast
qed

end
